theory Spec2Isabelle
  imports Main "HOL-Library.Word"
begin

unbundle bit_operations_syntax

section \<open>Data model\<close>

text \<open>
  The benchmark works on flat, row-major arrays of 16 elements: \<open>int16_t\<close> operands and
  \<open>int32_t\<close> results. \<open>int\<close> is 32 bits wide on the Nios II, so the casts
  \<open>(int32_t)A[i]\<close> and \<open>(uint32_t)A[i]\<close> are both the sign extension \<open>scast\<close>
  of a 16-bit word to a 32-bit word. Arithmetic on 32-bit words wraps; that no operation
  of the software engine wraps on operands of the safe range is a theorem below, stated
  with the exact integer results of the operations.
\<close>

type_synonym s16 = "16 word"
type_synonym s32 = "32 word"
type_synonym u32 = "32 word"

definition SAFE_INPUT_MAX :: int where
  "SAFE_INPUT_MAX = 23170"

definition A_OFFSET :: nat where "A_OFFSET = 0"
definition B_OFFSET :: nat where "B_OFFSET = 16"
definition SUM_OFFSET :: nat where "SUM_OFFSET = 32"
definition DIFF_OFFSET :: nat where "DIFF_OFFSET = 48"
definition PROD_OFFSET :: nat where "PROD_OFFSET = 64"
definition CONTROL_OFFSET :: nat where "CONTROL_OFFSET = 80"
definition STATUS_OFFSET :: nat where "STATUS_OFFSET = 81"

text \<open>The safe input range printed by the prompts of \<open>main\<close>: \<open>-23170 .. 23170\<close>.\<close>

definition safe_elem :: "s16 \<Rightarrow> bool" where
  "safe_elem x \<longleftrightarrow> - SAFE_INPUT_MAX \<le> sint x \<and> sint x \<le> SAFE_INPUT_MAX"

definition safe_matrix :: "s16 list \<Rightarrow> bool" where
  "safe_matrix A \<longleftrightarrow> length A = 16 \<and> list_all safe_elem A"

text \<open>The range of \<open>int32_t\<close>, for the exact (unbounded) result of an operation.\<close>

definition in_int32 :: "int \<Rightarrow> bool" where
  "in_int32 v \<longleftrightarrow> - 2147483648 \<le> v \<and> v \<le> 2147483647"

text \<open>A signed 32-bit operation does not overflow when its exact result, computed on
  the signed values of its two operands, is an \<open>int32_t\<close>.\<close>

definition add_no_overflow :: "s32 \<Rightarrow> s32 \<Rightarrow> bool" where
  "add_no_overflow x y \<longleftrightarrow> in_int32 (sint x + sint y)"

definition sub_no_overflow :: "s32 \<Rightarrow> s32 \<Rightarrow> bool" where
  "sub_no_overflow x y \<longleftrightarrow> in_int32 (sint x - sint y)"

definition mul_no_overflow :: "s32 \<Rightarrow> s32 \<Rightarrow> bool" where
  "mul_no_overflow x y \<longleftrightarrow> in_int32 (sint x * sint y)"

section \<open>The software engine\<close>

text \<open>
  \<open>software_matrix_operations\<close> writes through its three output pointers, so the model
  takes the three caller buffers and returns them updated. Each \<open>for\<close> loop with constant
  bounds is a \<open>fold\<close> over its index range.
\<close>

text \<open>Line 34, \<open>(int32_t)A[i] + (int32_t)B[i]\<close>, and line 40, the subtraction.\<close>

definition add_elem :: "s16 list \<Rightarrow> s16 list \<Rightarrow> nat \<Rightarrow> s32" where
  "add_elem A B i = scast (A ! i) + scast (B ! i)"

definition sub_elem :: "s16 list \<Rightarrow> s16 list \<Rightarrow> nat \<Rightarrow> s32" where
  "sub_elem A B i = scast (A ! i) - scast (B ! i)"

text \<open>Line 51, one step of the accumulation:
  \<open>sum = sum + (int32_t)A[i*4 + k] * (int32_t)B[k*4 + j]\<close>; the accumulator \<open>sum\<close>
  of the source is \<open>sum0\<close> here.\<close>

definition mac_step :: "s16 list \<Rightarrow> s16 list \<Rightarrow> nat \<Rightarrow> nat \<Rightarrow> nat \<Rightarrow> s32 \<Rightarrow> s32" where
  "mac_step A B i j k sum0 = sum0 + scast (A ! (i * 4 + k)) * scast (B ! (k * 4 + j))"

text \<open>The \<open>k\<close> loop after \<open>n\<close> iterations, from \<open>sum = 0\<close>; the source runs it for \<open>n = 4\<close>.\<close>

definition dot_loop :: "s16 list \<Rightarrow> s16 list \<Rightarrow> nat \<Rightarrow> nat \<Rightarrow> nat \<Rightarrow> s32" where
  "dot_loop A B i j n = fold (mac_step A B i j) [0..<n] 0"

definition software_matrix_operations ::
  "s16 list \<Rightarrow> s16 list \<Rightarrow> s32 list \<Rightarrow> s32 list \<Rightarrow> s32 list \<Rightarrow> s32 list \<times> s32 list \<times> s32 list" where
  "software_matrix_operations A B SW_Sum SW_Diff SW_Result =
     (let SW_Sum' = fold (\<lambda>i S. S[i := add_elem A B i]) [0..<16] SW_Sum;
          SW_Diff' = fold (\<lambda>i D. D[i := sub_elem A B i]) [0..<16] SW_Diff;
          SW_Result' =
            fold (\<lambda>i R. fold (\<lambda>j R. R[i * 4 + j := dot_loop A B i j 4]) [0..<4] R)
              [0..<4] SW_Result
      in (SW_Sum', SW_Diff', SW_Result'))"

section \<open>Memory-mapped devices\<close>

text \<open>
  Both peripherals are reached through \<open>volatile uint32_t *\<close> pointers: every access is
  an observable event, and what a read returns is decided by the device, not by the
  program. A device is a state with a read and a write transition over word offsets; the
  bus state pairs the device state with the log of the accesses made so far, in program
  order.
\<close>

datatype access = Write nat u32 | Read nat u32

record 'd device =
  dev_read :: "'d \<Rightarrow> nat \<Rightarrow> u32 \<times> 'd"
  dev_write :: "'d \<Rightarrow> nat \<Rightarrow> u32 \<Rightarrow> 'd"

definition mmio_write :: "'d device \<Rightarrow> nat \<Rightarrow> u32 \<Rightarrow> 'd \<times> access list \<Rightarrow> 'd \<times> access list" where
  "mmio_write M a v s = (dev_write M (fst s) a v, snd s @ [Write a v])"

definition mmio_read :: "'d device \<Rightarrow> nat \<Rightarrow> 'd \<times> access list \<Rightarrow> u32 \<times> ('d \<times> access list)" where
  "mmio_read M a s = (case dev_read M (fst s) a of (v, d') \<Rightarrow> (v, (d', snd s @ [Read a v])))"

section \<open>The accelerator driver\<close>

text \<open>Steps 1 and 2, lines 73 to 85: \<open>accel_base[OFFSET + i] = (uint32_t)X[i]\<close> for
  \<open>i = 0 .. 15\<close>.\<close>

definition write_operand ::
  "'d device \<Rightarrow> nat \<Rightarrow> s16 list \<Rightarrow> 'd \<times> access list \<Rightarrow> 'd \<times> access list" where
  "write_operand M off X s = fold (\<lambda>i s. mmio_write M (off + i) (scast (X ! i)) s) [0..<16] s"

text \<open>Steps 1 to 3, lines 73 to 88: both operands, then
  \<open>accel_base[CONTROL_OFFSET] = 1\<close>. The result is the bus state in which the driver
  enters its poll loop.\<close>

definition start_accelerator ::
  "'d device \<Rightarrow> s16 list \<Rightarrow> s16 list \<Rightarrow> 'd \<times> access list \<Rightarrow> 'd \<times> access list" where
  "start_accelerator M A B s =
     (let s1 = write_operand M A_OFFSET A s;
          s2 = write_operand M B_OFFSET B s1
      in mmio_write M CONTROL_OFFSET 1 s2)"

text \<open>Step 4, lines 91 to 94: \<open>while ((accel_base[STATUS_OFFSET] & 0x1) == 0) { }\<close>.
  The loop has no bound, so the model is a partial function: \<open>None\<close> is the run that
  never leaves the loop.\<close>

partial_function (option) poll_status ::
  "'d device \<Rightarrow> 'd \<times> access list \<Rightarrow> ('d \<times> access list) option" where
  "poll_status M s =
     (case mmio_read M STATUS_OFFSET s of
        (v, s') \<Rightarrow> if v AND 1 = 0 then poll_status M s' else Some s')"

text \<open>Step 5, lines 98 to 115: \<open>HW_X[i] = (int32_t)accel_base[OFFSET + i]\<close> for
  \<open>i = 0 .. 15\<close>. The cast reinterprets the 32 bits read, so the word is stored as it is;
  \<open>read_step\<close> is the loop body, on the array and the bus state.\<close>

definition read_step ::
  "'d device \<Rightarrow> nat \<Rightarrow> nat \<Rightarrow> s32 list \<times> ('d \<times> access list) \<Rightarrow> s32 list \<times> ('d \<times> access list)" where
  "read_step M off i Xs =
     (case mmio_read M (off + i) (snd Xs) of (v, s') \<Rightarrow> ((fst Xs)[i := v], s'))"

definition read_result ::
  "'d device \<Rightarrow> nat \<Rightarrow> s32 list \<Rightarrow> 'd \<times> access list \<Rightarrow> s32 list \<times> ('d \<times> access list)" where
  "read_result M off HW_X s = fold (read_step M off) [0..<16] (HW_X, s)"

text \<open>The whole driver, lines 66 to 116, on the three result arrays of the caller and the
  bus state: \<open>None\<close> when the poll loop never ends.\<close>

definition hardware_matrix_operations ::
  "'d device \<Rightarrow> s16 list \<Rightarrow> s16 list \<Rightarrow> s32 list \<Rightarrow> s32 list \<Rightarrow> s32 list \<Rightarrow>
   'd \<times> access list \<Rightarrow> ((s32 list \<times> s32 list \<times> s32 list) \<times> ('d \<times> access list)) option" where
  "hardware_matrix_operations M A B HW_Sum HW_Diff HW_Prod s =
     (let s3 = start_accelerator M A B s
      in case poll_status M s3 of
           None \<Rightarrow> None
         | Some s4 \<Rightarrow>
             (case read_result M SUM_OFFSET HW_Sum s4 of (HW_Sum', s5) \<Rightarrow>
              case read_result M DIFF_OFFSET HW_Diff s5 of (HW_Diff', s6) \<Rightarrow>
              case read_result M PROD_OFFSET HW_Prod s6 of (HW_Prod', s7) \<Rightarrow>
                Some ((HW_Sum', HW_Diff', HW_Prod'), s7)))"

text \<open>The bus state after the first \<open>n\<close> reads of the status register, and the value
  that read number \<open>n\<close> (counted from 0) returns.\<close>

primrec status_reads :: "'d device \<Rightarrow> nat \<Rightarrow> 'd \<times> access list \<Rightarrow> 'd \<times> access list" where
  "status_reads M 0 s = s"
| "status_reads M (Suc n) s = status_reads M n (snd (mmio_read M STATUS_OFFSET s))"

definition nth_status :: "'d device \<Rightarrow> nat \<Rightarrow> 'd \<times> access list \<Rightarrow> u32" where
  "nth_status M n s = fst (mmio_read M STATUS_OFFSET (status_reads M n s))"

text \<open>The pieces of the access log of one driver run: the 16 writes of an operand, the
  first \<open>n\<close> status reads, and the 16 reads that fill a result array \<open>R\<close>.\<close>

definition operand_writes :: "nat \<Rightarrow> s16 list \<Rightarrow> access list" where
  "operand_writes off X = map (\<lambda>i. Write (off + i) (scast (X ! i))) [0..<16]"

definition status_log :: "'d device \<Rightarrow> nat \<Rightarrow> 'd \<times> access list \<Rightarrow> access list" where
  "status_log M n s = map (\<lambda>m. Read STATUS_OFFSET (nth_status M m s)) [0..<n]"

definition result_reads :: "nat \<Rightarrow> s32 list \<Rightarrow> access list" where
  "result_reads off R = map (\<lambda>i. Read (off + i) (R ! i)) [0..<16]"

section \<open>The cycle timer and the benchmark\<close>

text \<open>Lines 191 to 193 and 205 to 207 of \<open>main\<close>: period low and high, then the start bit.\<close>

definition timer_start :: "'t device \<Rightarrow> 't \<times> access list \<Rightarrow> 't \<times> access list" where
  "timer_start T s = mmio_write T 1 0x4 (mmio_write T 3 0xFFFF (mmio_write T 2 0xFFFF s))"

text \<open>Lines 197 to 200 and 211 to 214 of \<open>main\<close>. C leaves the order of the two volatile
  reads in \<open>(*(timer + 5) << 16) | *(timer + 4)\<close> to the compiler; \<open>hi_first\<close> is that
  choice.\<close>

definition timer_stop_and_read ::
  "'t device \<Rightarrow> bool \<Rightarrow> 't \<times> access list \<Rightarrow> u32 \<times> ('t \<times> access list)" where
  "timer_stop_and_read T hi_first s =
     (let s1 = mmio_write T 1 0x8 s;
          s2 = mmio_write T 4 1 s1;
          (hi, lo, s4) =
            (if hi_first
             then (case mmio_read T 5 s2 of (hi, s3) \<Rightarrow>
                   case mmio_read T 4 s3 of (lo, s4) \<Rightarrow> (hi, lo, s4))
             else (case mmio_read T 4 s2 of (lo, s3) \<Rightarrow>
                   case mmio_read T 5 s3 of (hi, s4) \<Rightarrow> (hi, lo, s4)));
          last_count = push_bit 16 hi OR lo
      in (0xFFFFFFFF - last_count, s4))"

text \<open>Line 285, \<open>int speedup = (sw_cycles / hw_cycles)\<close>: an unsigned 32-bit division
  whose quotient is stored in an \<open>int\<close>. C gives the division no result when the
  divisor is zero; the model makes that case a fault.\<close>

datatype fault = DivisionByZero

definition speedup :: "u32 \<Rightarrow> u32 \<Rightarrow> fault + s32" where
  "speedup sw_cycles hw_cycles =
     (if hw_cycles = 0 then Inl DivisionByZero else Inr (sw_cycles div hw_cycles))"

record report =
  sw_results :: "s32 list \<times> s32 list \<times> s32 list"
  hw_results :: "s32 list \<times> s32 list \<times> s32 list"
  sw_cycles :: u32
  hw_cycles :: u32
  ratio :: s32

text \<open>One pass of the loop of \<open>main\<close>, lines 186 to 286, without the console: \<open>None\<close>
  when the driver never returns, \<open>Inl\<close> when the division faults. The timer and the
  accelerator are two devices, each with its own state and log; the six result arrays of
  \<open>main\<close> are uninitialised locals, and \<open>buf\<close> is what they hold on entry.\<close>

definition benchmark ::
  "'t device \<Rightarrow> 'd device \<Rightarrow> bool \<Rightarrow> s16 list \<Rightarrow> s16 list \<Rightarrow> s32 list \<Rightarrow>
   't \<times> access list \<Rightarrow> 'd \<times> access list \<Rightarrow> (fault + report) option" where
  "benchmark T M hi_first A B buf ts ms =
     (let ts1 = timer_start T ts;
          sw = software_matrix_operations A B buf buf buf;
          (sw_c, ts2) = timer_stop_and_read T hi_first ts1;
          ts3 = timer_start T ts2
      in case hardware_matrix_operations M A B buf buf buf ms of
           None \<Rightarrow> None
         | Some (hw, ms') \<Rightarrow>
             (let (hw_c, ts4) = timer_stop_and_read T hi_first ts3
              in Some (case speedup sw_c hw_c of
                         Inl e \<Rightarrow> Inl e
                       | Inr q \<Rightarrow> Inr \<lparr>sw_results = sw, hw_results = hw,
                                       sw_cycles = sw_c, hw_cycles = hw_c, ratio = q\<rparr>)))"

section \<open>The peripheral\<close>

text \<open>
  Modelled from the spec: the accelerator itself is a hardware design
  (\<open>mat_mul_sub_add_all_parallel_16bit.sv\<close>) that is not part of the C source. Its
  register map is the one of the interface table: operands A and B at offsets 0 to 15 and
  16 to 31, of which the low 16 bits are significant; sum, difference and product at 32
  to 47, 48 to 63 and 64 to 79, each a 32-bit signed value; control at 80, whose bit 0
  triggers the computation; status at 81, whose bit 0 is the completion flag. The spec
  gives no timing, so the number of status reads that still see the flag clear after a
  start is a parameter of the state (\<open>latency\<close>). The result regions are valid only
  once the completion flag is set: the spec forbids reading them earlier and does not
  say what such a read returns, so that word is a parameter of the state too
  (\<open>busy_word\<close>).
\<close>

record accel_state =
  a_regs :: "u32 list"
  b_regs :: "u32 list"
  sum_regs :: "u32 list"
  diff_regs :: "u32 list"
  prod_regs :: "u32 list"
  latency :: nat
  pending :: "nat option"
  busy_word :: u32

text \<open>Modelled from the spec: the two operand regions hold 16 words each.\<close>

definition accel_ok :: "accel_state \<Rightarrow> bool" where
  "accel_ok st \<longleftrightarrow> length (a_regs st) = 16 \<and> length (b_regs st) = 16"

text \<open>Modelled from the spec: the peripheral consumes only the low 16 bits of an operand
  word, as a signed 16-bit value.\<close>

definition low16 :: "u32 \<Rightarrow> int" where
  "low16 v = sint (ucast v :: s16)"

text \<open>Modelled from the spec: the computation a start triggers. Sum and difference are
  \<open>A + B\<close> and \<open>A - B\<close> per element, the product is the matrix product of the two
  row-major 4x4 grids, each stored as a 32-bit signed value.\<close>

definition accel_compute :: "accel_state \<Rightarrow> accel_state" where
  "accel_compute st =
     st\<lparr>sum_regs := map (\<lambda>i. word_of_int (low16 (a_regs st ! i) + low16 (b_regs st ! i))) [0..<16],
        diff_regs := map (\<lambda>i. word_of_int (low16 (a_regs st ! i) - low16 (b_regs st ! i))) [0..<16],
        prod_regs := map (\<lambda>m. word_of_int
            (sum_list (map (\<lambda>k. low16 (a_regs st ! (m div 4 * 4 + k)) * low16 (b_regs st ! (k * 4 + m mod 4)))
               [0..<4]))) [0..<16],
        pending := Some (latency st)\<rparr>"

text \<open>Modelled from the spec: a write to an operand word stores it, a write to control
  with bit 0 set starts the computation, any other write has no effect.\<close>

definition accel_write :: "accel_state \<Rightarrow> nat \<Rightarrow> u32 \<Rightarrow> accel_state" where
  "accel_write st a v =
     (if a < 16 then st\<lparr>a_regs := (a_regs st)[a := v]\<rparr>
      else if a < 32 then st\<lparr>b_regs := (b_regs st)[a - 16 := v]\<rparr>
      else if a = 80 \<and> v AND 1 = 1 then accel_compute st
      else st)"

text \<open>Modelled from the spec: the completion flag, bit 0 of status. It is set when a
  started computation has no status read left to wait for.\<close>

definition accel_done :: "accel_state \<Rightarrow> bool" where
  "accel_done st \<longleftrightarrow> pending st = Some 0"

text \<open>Modelled from the spec: a read of a result word returns it once the completion
  flag is set, and \<open>busy_word\<close> before; a read of status returns 1 once the started
  computation is done and 0 before, and is the only read that changes the state (it
  counts the wait down); any other offset reads as 0.\<close>

definition accel_read :: "accel_state \<Rightarrow> nat \<Rightarrow> u32 \<times> accel_state" where
  "accel_read st a =
     (if 32 \<le> a \<and> a < 48 then
        (if accel_done st then sum_regs st ! (a - 32) else busy_word st, st)
      else if 48 \<le> a \<and> a < 64 then
        (if accel_done st then diff_regs st ! (a - 48) else busy_word st, st)
      else if 64 \<le> a \<and> a < 80 then
        (if accel_done st then prod_regs st ! (a - 64) else busy_word st, st)
      else if a = 81 then
        (case pending st of
           None \<Rightarrow> (0, st)
         | Some 0 \<Rightarrow> (1, st)
         | Some (Suc n) \<Rightarrow> (0, st\<lparr>pending := Some n\<rparr>))
      else (0, st))"

text \<open>Modelled from the spec: the peripheral as a device on the bus, and its state after
  reset with a latency of \<open>n\<close> status reads; before completion its result regions
  read as \<open>0xDEADBEEF\<close>.\<close>

definition accelerator :: "accel_state device" where
  "accelerator = \<lparr>dev_read = accel_read, dev_write = accel_write\<rparr>"

definition accel_reset :: "nat \<Rightarrow> accel_state" where
  "accel_reset n = \<lparr>a_regs = replicate 16 0, b_regs = replicate 16 0, sum_regs = replicate 16 0,
     diff_regs = replicate 16 0, prod_regs = replicate 16 0, latency = n, pending = None,
     busy_word = 0xDEADBEEF\<rparr>"

section \<open>Devices and operands of the concrete runs\<close>

text \<open>A device that ignores writes and answers every read with 1: its status flag is
  always set.\<close>

definition ready_device :: "unit device" where
  "ready_device = \<lparr>dev_read = (\<lambda>d a. (1, d)), dev_write = (\<lambda>d a v. d)\<rparr>"

text \<open>A device that ignores writes and answers every read with 0: its status flag never
  comes up.\<close>

definition dead_device :: "unit device" where
  "dead_device = \<lparr>dev_read = (\<lambda>d a. (0, d)), dev_write = (\<lambda>d a v. d)\<rparr>"

text \<open>A timer whose two count halves read \<open>0xFFFF\<close>: the count a stopped timer shows
  once it has reloaded its period.\<close>

definition reloaded_timer :: "unit device" where
  "reloaded_timer = \<lparr>dev_read = (\<lambda>d a. (0xFFFF, d)), dev_write = (\<lambda>d a v. d)\<rparr>"

text \<open>The operands of the end-to-end scenario, the largest safe matrix, and a matrix with
  negative elements; the output arrays start zeroed.\<close>

definition example_A :: "s16 list" where
  "example_A = [1, 2, 3, 4, 5, 6, 7, 8, 9, 10, 11, 12, 13, 14, 15, 16]"

definition identity4 :: "s16 list" where
  "identity4 = [1, 0, 0, 0, 0, 1, 0, 0, 0, 0, 1, 0, 0, 0, 0, 1]"

definition max_matrix :: "s16 list" where
  "max_matrix = replicate 16 23170"

definition negative_A :: "s16 list" where
  "negative_A = [- 1, 2, - 3, 4, - 5, 6, - 7, 8, - 9, 10, - 11, 12, - 13, 14, - 15, - 23170]"

definition zero_buffer :: "s32 list" where
  "zero_buffer = replicate 16 0"

section \<open>Loops that fill an array\<close>

lemma length_fill_loop:
  "length (fold (\<lambda>i xs. xs[b + i := f i]) [0..<n] xs) = length xs"
  by (induction n) simp_all

lemma nth_fill_loop:
  "b + n \<le> length xs \<Longrightarrow>
   fold (\<lambda>i xs. xs[b + i := f i]) [0..<n] xs ! m =
     (if b \<le> m \<and> m < b + n then f (m - b) else xs ! m)"
proof (induction n)
  case 0
  then show ?case by auto
next
  case (Suc n)
  then have "b + n < length (fold (\<lambda>i xs. xs[b + i := f i]) [0..<n] xs)"
    by (simp add: length_fill_loop)
  with Suc show ?case
    by (auto simp: nth_list_update)
qed

lemma nth_fill_loop0:
  "n \<le> length xs \<Longrightarrow>
   fold (\<lambda>i xs. xs[i := f i]) [0..<n] xs ! m = (if m < n then f m else xs ! m)"
  using nth_fill_loop [of 0 n xs f m] by simp

lemma length_fill_loop0:
  "length (fold (\<lambda>i xs. xs[i := f i]) [0..<n] xs) = length xs"
  using length_fill_loop [of 0 f n xs] by simp

lemma length_fill_rows:
  "length (fold (\<lambda>i R. fold (\<lambda>j R. R[i * 4 + j := g i j]) [0..<4] R) [0..<n] xs) = length xs"
  by (induction n) (simp_all add: length_fill_loop)

lemma nth_fill_rows:
  "4 * n \<le> length xs \<Longrightarrow>
   fold (\<lambda>i R. fold (\<lambda>j R. R[i * 4 + j := g i j]) [0..<4] R) [0..<n] xs ! m =
     (if m < 4 * n then g (m div 4) (m mod 4) else xs ! m)"
proof (induction n)
  case 0
  then show ?case by simp
next
  case (Suc n)
  let ?R = "fold (\<lambda>i R. fold (\<lambda>j R. R[i * 4 + j := g i j]) [0..<4] R) [0..<n] xs"
  have len: "n * 4 + 4 \<le> length ?R"
    using Suc.prems by (simp add: length_fill_rows)
  have step: "fold (\<lambda>j R. R[n * 4 + j := g n j]) [0..<4] ?R ! m =
      (if n * 4 \<le> m \<and> m < n * 4 + 4 then g n (m - n * 4) else ?R ! m)"
    by (rule nth_fill_loop [OF len])
  have ih: "?R ! m = (if m < 4 * n then g (m div 4) (m mod 4) else xs ! m)"
    using Suc by simp
  have idx: "n * 4 \<le> m \<Longrightarrow> m < n * 4 + 4 \<Longrightarrow> m div 4 = n \<and> m mod 4 = m - n * 4"
    by presburger
  show ?case
    unfolding upt_Suc using step ih idx by (auto simp del: upt_Suc)
qed

lemma filled_eq_map:
  assumes "length xs = 16"
  shows "fold (\<lambda>i xs. xs[i := f i]) [0..<16] xs = map f [0..<16]"
proof (rule nth_equalityI)
  show "length (fold (\<lambda>i xs. xs[i := f i]) [0..<16] xs) = length (map f [0..<16])"
    using assms by (simp add: length_fill_loop0)
next
  fix i assume "i < length (fold (\<lambda>i xs. xs[i := f i]) [0..<16] xs)"
  then have i: "i < 16" using assms by (simp add: length_fill_loop0)
  have "fold (\<lambda>i xs. xs[i := f i]) [0..<16] xs ! i = f i"
    using nth_fill_loop0 [of 16 xs f i] assms i by simp
  then show "fold (\<lambda>i xs. xs[i := f i]) [0..<16] xs ! i = map f [0..<16] ! i"
    using i by simp
qed

lemma filled_rows_eq_map:
  assumes "length xs = 16"
  shows "fold (\<lambda>i R. fold (\<lambda>j R. R[i * 4 + j := g i j]) [0..<4] R) [0..<4] xs =
     map (\<lambda>m. g (m div 4) (m mod 4)) [0..<16]"
proof (rule nth_equalityI)
  show "length (fold (\<lambda>i R. fold (\<lambda>j R. R[i * 4 + j := g i j]) [0..<4] R) [0..<4] xs) =
      length (map (\<lambda>m. g (m div 4) (m mod 4)) [0..<16])"
    using assms by (simp add: length_fill_rows)
next
  fix m assume "m < length (fold (\<lambda>i R. fold (\<lambda>j R. R[i * 4 + j := g i j]) [0..<4] R) [0..<4] xs)"
  then have m: "m < 16" using assms by (simp add: length_fill_rows)
  have "fold (\<lambda>i R. fold (\<lambda>j R. R[i * 4 + j := g i j]) [0..<4] R) [0..<4] xs ! m =
      g (m div 4) (m mod 4)"
    using nth_fill_rows [of 4 xs g m] assms m by simp
  then show "fold (\<lambda>i R. fold (\<lambda>j R. R[i * 4 + j := g i j]) [0..<4] R) [0..<4] xs ! m =
      map (\<lambda>m. g (m div 4) (m mod 4)) [0..<16] ! m"
    using m by simp
qed

lemma map_nth_16: "length xs = 16 \<Longrightarrow> map (\<lambda>i. xs ! i) [0..<16] = xs"
  using map_nth [of xs] by simp

section \<open>Sign extension and exact 32-bit arithmetic\<close>

lemma sint_scast16: "sint (scast (x :: s16) :: s32) = sint x"
  by (rule sint_up_scast) (simp add: is_up)

lemma sint16_bounds: "- 32768 \<le> sint (x :: s16) \<and> sint x \<le> 32767"
  using sint_ge [of x] sint_lt [of x] by simp

lemma ucast_scast16: "ucast (scast (x :: s16) :: u32) = x"
  by (rule bit_word_eqI) (auto simp: bit_simps)

lemma low16_scast: "low16 (scast (x :: s16)) = sint x"
  by (simp add: low16_def ucast_scast16)

lemma sint_add32: "in_int32 (sint a + sint b) \<Longrightarrow> sint (a + b :: s32) = sint a + sint b"
  by (simp add: in_int32_def sint_word_ariths signed_take_bit_int_eq_self)

lemma sint_sub32: "in_int32 (sint a - sint b) \<Longrightarrow> sint (a - b :: s32) = sint a - sint b"
  by (simp add: in_int32_def sint_word_ariths signed_take_bit_int_eq_self)

lemma sint_mult32: "in_int32 (sint a * sint b) \<Longrightarrow> sint (a * b :: s32) = sint a * sint b"
  by (simp add: in_int32_def sint_word_ariths signed_take_bit_int_eq_self)

lemma add_elem_in_int32: "in_int32 (sint (scast (x :: s16) :: s32) + sint (scast (y :: s16) :: s32))"
  using sint16_bounds [of x] sint16_bounds [of y] by (simp add: in_int32_def sint_scast16)

lemma sub_elem_in_int32: "in_int32 (sint (scast (x :: s16) :: s32) - sint (scast (y :: s16) :: s32))"
  using sint16_bounds [of x] sint16_bounds [of y] by (simp add: in_int32_def sint_scast16)

lemma sint_add_elem: "sint (add_elem A B i) = sint (A ! i) + sint (B ! i)"
  unfolding add_elem_def using sint_add32 [OF add_elem_in_int32, of "A ! i" "B ! i"]
  by (simp add: sint_scast16)

lemma sint_sub_elem: "sint (sub_elem A B i) = sint (A ! i) - sint (B ! i)"
  unfolding sub_elem_def using sint_sub32 [OF sub_elem_in_int32, of "A ! i" "B ! i"]
  by (simp add: sint_scast16)

lemma sum_upt_4:
  fixes f :: "nat \<Rightarrow> 'a::comm_monoid_add"
  shows "(\<Sum>k = 0..<4. f k) = f 0 + f 1 + f 2 + f 3"
proof -
  have "{0..<4::nat} = {0, 1, 2, 3}" by auto
  then show ?thesis by (simp add: add.assoc)
qed

lemma unat_elapsed: "unat ((0xFFFFFFFF :: u32) - x) = 4294967295 - unat x"
proof -
  have "unat x < 4294967296" using unsigned_less [of x, where 'a = nat] by simp
  then have "x \<le> 0xFFFFFFFF" by (simp add: word_le_nat_alt)
  then have "unat ((0xFFFFFFFF :: u32) - x) = unat (0xFFFFFFFF :: u32) - unat x"
    by (rule unat_sub)
  then show ?thesis by simp
qed

lemma unat_count_halves:
  fixes hi lo :: u32
  assumes "hi < 2 ^ 16" "lo < 2 ^ 16"
  shows "unat (push_bit 16 hi OR lo) = 65536 * unat hi + unat lo"
proof -
  have lo: "lo AND mask 16 = lo"
    using assms(2) by (rule less_mask_eq)
  have disj: "\<not> bit (push_bit 16 hi) n \<or> \<not> bit lo n" for n
  proof (cases "n < 16")
    case True
    then show ?thesis by (simp add: bit_simps)
  next
    case False
    have "\<not> bit (lo AND mask 16) n"
      using False by (simp add: bit_simps)
    then show ?thesis by (simp add: lo)
  qed
  have eq: "push_bit 16 hi OR lo = push_bit 16 hi + lo"
    using disj by (simp add: disjunctive_add)
  have h: "unat hi < 65536" and l: "unat lo < 65536"
    using assms by (simp_all add: word_less_nat_alt)
  have "unat hi * unat (65536 :: u32) < 2 ^ LENGTH(32)"
    using h by simp
  then have m: "unat (hi * 65536) = unat hi * 65536"
    by (simp add: unat_mult_lem [THEN iffD1])
  have "unat (hi * 65536) + unat lo < 2 ^ LENGTH(32)"
    using h l by (simp add: m)
  then have "unat (hi * 65536 + lo) = unat (hi * 65536) + unat lo"
    by (rule unat_add_lem [THEN iffD1])
  moreover have "push_bit 16 hi OR lo = hi * 65536 + lo"
    using eq by (simp add: push_bit_eq_mult)
  ultimately show ?thesis
    by (simp add: m)
qed

lemma and_1_cases: "(v :: u32) AND 1 = 0 \<or> v AND 1 = 1"
  by (simp add: and_one_eq mod_2_eq_odd)

lemma and_1_neq_0: "(v :: u32) AND 1 \<noteq> 0 \<longleftrightarrow> v AND 1 = 1"
  using and_1_cases [of v] by auto

section \<open>Results of the software engine\<close>

lemma software_sum_nth:
  "length SW_Sum = 16 \<Longrightarrow> i < 16 \<Longrightarrow>
   fst (software_matrix_operations A B SW_Sum SW_Diff SW_Result) ! i = add_elem A B i"
  by (simp add: software_matrix_operations_def Let_def nth_fill_loop0 del: upt_Suc)

lemma software_diff_nth:
  "length SW_Diff = 16 \<Longrightarrow> i < 16 \<Longrightarrow>
   fst (snd (software_matrix_operations A B SW_Sum SW_Diff SW_Result)) ! i = sub_elem A B i"
  by (simp add: software_matrix_operations_def Let_def nth_fill_loop0)

lemma software_prod_nth:
  "length SW_Result = 16 \<Longrightarrow> m < 16 \<Longrightarrow>
   snd (snd (software_matrix_operations A B SW_Sum SW_Diff SW_Result)) ! m =
     dot_loop A B (m div 4) (m mod 4) 4"
  by (simp add: software_matrix_operations_def Let_def nth_fill_rows)

lemma software_prod_cell:
  assumes "length SW_Result = 16" "i < 4" "j < 4"
  shows "snd (snd (software_matrix_operations A B SW_Sum SW_Diff SW_Result)) ! (i * 4 + j) =
     dot_loop A B i j 4"
proof -
  have "i * 4 + j < 16" "(i * 4 + j) div 4 = i" "(i * 4 + j) mod 4 = j"
    using assms(2,3) by simp_all
  then show ?thesis
    using software_prod_nth [OF assms(1), of "i * 4 + j" A B SW_Sum SW_Diff] by simp
qed

lemma software_as_maps:
  assumes "length SW_Sum = 16" and "length SW_Diff = 16" and "length SW_Result = 16"
  shows "software_matrix_operations A B SW_Sum SW_Diff SW_Result =
     (map (add_elem A B) [0..<16], map (sub_elem A B) [0..<16],
      map (\<lambda>m. dot_loop A B (m div 4) (m mod 4) 4) [0..<16])"
  by (simp only: software_matrix_operations_def Let_def filled_eq_map [OF assms(1)]
      filled_eq_map [OF assms(2)] filled_rows_eq_map [OF assms(3)])

lemma dot_loop_0: "dot_loop A B i j 0 = 0"
  by (simp add: dot_loop_def)

lemma dot_loop_Suc: "dot_loop A B i j (Suc n) = mac_step A B i j n (dot_loop A B i j n)"
  by (simp add: dot_loop_def)

lemma dot_loop_4:
  "dot_loop A B i j 4 =
     0 + scast (A ! (i * 4 + 0)) * scast (B ! (0 * 4 + j))
       + scast (A ! (i * 4 + 1)) * scast (B ! (1 * 4 + j))
       + scast (A ! (i * 4 + 2)) * scast (B ! (2 * 4 + j))
       + scast (A ! (i * 4 + 3)) * scast (B ! (3 * 4 + j))"
  by (simp add: eval_nat_numeral dot_loop_Suc dot_loop_0 mac_step_def)

lemma dot_loop_word_sum:
  "dot_loop A B i j 4 = (\<Sum>k = 0..<4. scast (A ! (i * 4 + k)) * scast (B ! (k * 4 + j)))"
  by (simp add: dot_loop_4 sum_upt_4)

lemma dot_loop_identity_left:
  assumes "i < 4" "j < 4"
  shows "dot_loop identity4 B i j 4 = scast (B ! (i * 4 + j))"
proof -
  have "i = 0 \<or> i = 1 \<or> i = 2 \<or> i = 3" using assms(1) by auto
  then show ?thesis
    by (auto simp: dot_loop_4 identity4_def)
qed

lemma dot_loop_identity_right:
  assumes "i < 4" "j < 4"
  shows "dot_loop A identity4 i j 4 = scast (A ! (i * 4 + j))"
proof -
  have "j = 0 \<or> j = 1 \<or> j = 2 \<or> j = 3" using assms(2) by auto
  then show ?thesis
    by (auto simp: dot_loop_4 identity4_def)
qed

lemma safe_matrix_nth: "safe_matrix A \<Longrightarrow> m < 16 \<Longrightarrow> - 23170 \<le> sint (A ! m) \<and> sint (A ! m) \<le> 23170"
  by (simp add: safe_matrix_def list_all_length safe_elem_def SAFE_INPUT_MAX_def)

lemma safe_product_bound:
  fixes x y :: int
  assumes "- 23170 \<le> x" "x \<le> 23170" "- 23170 \<le> y" "y \<le> 23170"
  shows "- 536848900 \<le> x * y \<and> x * y \<le> 536848900"
proof -
  have "\<bar>x\<bar> * \<bar>y\<bar> \<le> 23170 * 23170"
    using assms by (intro mult_mono) auto
  then have "\<bar>x * y\<bar> \<le> 536848900"
    by (simp add: abs_mult)
  then show ?thesis by linarith
qed

lemma safe_term_bound:
  assumes "safe_matrix A" "safe_matrix B" "i < 4" "j < 4" "k < 4"
  shows "- 536848900 \<le> sint (scast (A ! (i * 4 + k)) :: s32) * sint (scast (B ! (k * 4 + j)) :: s32)
       \<and> sint (scast (A ! (i * 4 + k)) :: s32) * sint (scast (B ! (k * 4 + j)) :: s32) \<le> 536848900"
proof -
  have "i * 4 + k < 16" "k * 4 + j < 16" using assms by simp_all
  then show ?thesis
    using safe_matrix_nth [OF assms(1), of "i * 4 + k"] safe_matrix_nth [OF assms(2), of "k * 4 + j"]
    by (simp add: sint_scast16 safe_product_bound)
qed

lemma sint_safe_term:
  assumes "safe_matrix A" "safe_matrix B" "i < 4" "j < 4" "k < 4"
  shows "sint (scast (A ! (i * 4 + k)) * scast (B ! (k * 4 + j)) :: s32) =
         sint (A ! (i * 4 + k)) * sint (B ! (k * 4 + j))"
proof -
  have "in_int32 (sint (scast (A ! (i * 4 + k)) :: s32) * sint (scast (B ! (k * 4 + j)) :: s32))"
    using safe_term_bound [OF assms] by (simp add: in_int32_def)
  then show ?thesis
    by (simp add: sint_mult32 sint_scast16)
qed

lemma dot_loop_bound:
  assumes "safe_matrix A" "safe_matrix B" "i < 4" "j < 4"
  shows "n \<le> 4 \<Longrightarrow>
     - (int n * 536848900) \<le> sint (dot_loop A B i j n) \<and> sint (dot_loop A B i j n) \<le> int n * 536848900
     \<and> sint (dot_loop A B i j n) = (\<Sum>k = 0..<n. sint (A ! (i * 4 + k)) * sint (B ! (k * 4 + j)))"
proof (induction n)
  case 0
  then show ?case by (simp add: dot_loop_0)
next
  case (Suc n)
  then have n: "n < 4" and ih:
    "- (int n * 536848900) \<le> sint (dot_loop A B i j n)"
    "sint (dot_loop A B i j n) \<le> int n * 536848900"
    "sint (dot_loop A B i j n) = (\<Sum>k = 0..<n. sint (A ! (i * 4 + k)) * sint (B ! (k * 4 + j)))"
    by simp_all
  let ?t = "scast (A ! (i * 4 + n)) * scast (B ! (n * 4 + j)) :: s32"
  have t: "- 536848900 \<le> sint ?t" "sint ?t \<le> 536848900"
    "sint ?t = sint (A ! (i * 4 + n)) * sint (B ! (n * 4 + j))"
    using safe_term_bound [OF assms n] sint_safe_term [OF assms n] by (simp_all add: sint_scast16)
  have "int n \<le> 3" using n by simp
  then have "in_int32 (sint (dot_loop A B i j n) + sint ?t)"
    using ih(1,2) t(1,2) by (simp add: in_int32_def)
  then have "sint (dot_loop A B i j n + ?t) = sint (dot_loop A B i j n) + sint ?t"
    by (rule sint_add32)
  then show ?case
    using ih t by (simp add: dot_loop_Suc mac_step_def algebra_simps)
qed

section \<open>The poll loop\<close>

lemma poll_status_done:
  "fst (mmio_read M STATUS_OFFSET s) AND 1 = 1 \<Longrightarrow>
   poll_status M s = Some (snd (mmio_read M STATUS_OFFSET s))"
  by (subst poll_status.simps) (simp add: case_prod_beta)

lemma poll_status_busy:
  "fst (mmio_read M STATUS_OFFSET s) AND 1 = 0 \<Longrightarrow>
   poll_status M s = poll_status M (snd (mmio_read M STATUS_OFFSET s))"
  by (subst poll_status.simps) (simp add: case_prod_beta)

lemma nth_status_0: "nth_status M 0 s = fst (mmio_read M STATUS_OFFSET s)"
  by (simp add: nth_status_def)

lemma nth_status_Suc:
  "nth_status M (Suc n) s = nth_status M n (snd (mmio_read M STATUS_OFFSET s))"
  by (simp add: nth_status_def)

lemma status_reads_Suc_right:
  "status_reads M (Suc n) s = snd (mmio_read M STATUS_OFFSET (status_reads M n s))"
  by (induction n arbitrary: s) simp_all

lemma poll_status_skip:
  "(\<forall>m<n. nth_status M m s AND 1 = 0) \<Longrightarrow> poll_status M s = poll_status M (status_reads M n s)"
proof (induction n arbitrary: s)
  case 0
  then show ?case by simp
next
  case (Suc n)
  have first: "fst (mmio_read M STATUS_OFFSET s) AND 1 = 0"
    using Suc.prems [rule_format, of 0] by (simp add: nth_status_0)
  have rest: "\<forall>m<n. nth_status M m (snd (mmio_read M STATUS_OFFSET s)) AND 1 = 0"
    using Suc.prems by (auto simp: nth_status_Suc [symmetric])
  show ?case
    using poll_status_busy [OF first] Suc.IH [OF rest] by simp
qed

lemma poll_status_returns:
  assumes "nth_status M n s AND 1 = 1" and "\<forall>m<n. nth_status M m s AND 1 = 0"
  shows "poll_status M s = Some (status_reads M (Suc n) s)"
proof -
  have "poll_status M s = poll_status M (status_reads M n s)"
    using assms(2) by (rule poll_status_skip)
  also have "\<dots> = Some (snd (mmio_read M STATUS_OFFSET (status_reads M n s)))"
    using assms(1) by (intro poll_status_done) (simp add: nth_status_def)
  finally show ?thesis by (simp only: status_reads_Suc_right)
qed

lemma poll_status_SomeD:
  "poll_status M s = Some s' \<Longrightarrow>
   \<exists>n. nth_status M n s AND 1 = 1 \<and> (\<forall>m<n. nth_status M m s AND 1 = 0)
      \<and> s' = status_reads M (Suc n) s"
proof (induction rule: poll_status.raw_induct [rotated 1, consumes 1])
  case (1 poll M s s')
  show ?case
  proof (cases "fst (mmio_read M STATUS_OFFSET s) AND 1 = 0")
    case True
    with 1(2) have "poll M (snd (mmio_read M STATUS_OFFSET s)) = Some s'"
      by (simp add: case_prod_beta)
    from 1(1) [OF this] obtain n where n:
      "nth_status M n (snd (mmio_read M STATUS_OFFSET s)) AND 1 = 1"
      "\<forall>m<n. nth_status M m (snd (mmio_read M STATUS_OFFSET s)) AND 1 = 0"
      "s' = status_reads M (Suc n) (snd (mmio_read M STATUS_OFFSET s))"
      by blast
    have "\<forall>m<Suc n. nth_status M m s AND 1 = 0"
    proof (intro allI impI)
      fix m assume "m < Suc n"
      then show "nth_status M m s AND 1 = 0"
        using True n(2) by (cases m) (simp_all add: nth_status_0 nth_status_Suc)
    qed
    moreover have "nth_status M (Suc n) s AND 1 = 1"
      using n(1) by (simp add: nth_status_Suc)
    moreover have "s' = status_reads M (Suc (Suc n)) s"
      using n(3) by simp
    ultimately show ?thesis by blast
  next
    case False
    then have one: "fst (mmio_read M STATUS_OFFSET s) AND 1 = 1"
      by (simp add: and_1_neq_0)
    with 1(2) False have "s' = snd (mmio_read M STATUS_OFFSET s)"
      by (simp add: case_prod_beta)
    with one have "nth_status M 0 s AND 1 = 1 \<and> (\<forall>m<0. nth_status M m s AND 1 = 0)
      \<and> s' = status_reads M (Suc 0) s"
      by (simp add: nth_status_0)
    then show ?thesis by blast
  qed
qed

lemma least_done:
  assumes "nth_status M n s AND 1 = 1"
  shows "\<exists>k. nth_status M k s AND 1 = 1 \<and> (\<forall>m<k. nth_status M m s AND 1 = 0)"
proof -
  let ?k = "LEAST k. nth_status M k s AND 1 = 1"
  have "nth_status M ?k s AND 1 = 1"
    using assms by (rule LeastI)
  moreover have "nth_status M m s AND 1 = 0" if "m < ?k" for m
    using not_less_Least [OF that] and_1_cases [of "nth_status M m s"] by blast
  ultimately show ?thesis by blast
qed

lemma poll_status_Some_iff:
  "(\<exists>s'. poll_status M s = Some s') \<longleftrightarrow> (\<exists>n. nth_status M n s AND 1 = 1)"
proof
  assume "\<exists>s'. poll_status M s = Some s'"
  then show "\<exists>n. nth_status M n s AND 1 = 1"
    using poll_status_SomeD by blast
next
  assume "\<exists>n. nth_status M n s AND 1 = 1"
  then obtain k where "nth_status M k s AND 1 = 1" "\<forall>m<k. nth_status M m s AND 1 = 0"
    using least_done by blast
  then show "\<exists>s'. poll_status M s = Some s'"
    using poll_status_returns by blast
qed

lemma poll_status_None_iff:
  "poll_status M s = None \<longleftrightarrow> (\<forall>n. nth_status M n s AND 1 = 0)"
proof -
  have "poll_status M s = None \<longleftrightarrow> \<not> (\<exists>s'. poll_status M s = Some s')"
    by (cases "poll_status M s") simp_all
  also have "\<dots> \<longleftrightarrow> \<not> (\<exists>n. nth_status M n s AND 1 = 1)"
    by (simp only: poll_status_Some_iff)
  also have "\<dots> \<longleftrightarrow> (\<forall>n. nth_status M n s AND 1 = 0)"
    using and_1_cases by (metis zero_neq_one)
  finally show ?thesis .
qed

lemma hardware_SomeD:
  assumes "hardware_matrix_operations M A B HW_Sum HW_Diff HW_Prod s = Some ((S, D, P), s')"
  shows "\<exists>s4 s5 s6. poll_status M (start_accelerator M A B s) = Some s4
       \<and> read_result M SUM_OFFSET HW_Sum s4 = (S, s5)
       \<and> read_result M DIFF_OFFSET HW_Diff s5 = (D, s6)
       \<and> read_result M PROD_OFFSET HW_Prod s6 = (P, s')"
  using assms
  by (auto simp: hardware_matrix_operations_def Let_def split: option.splits prod.splits)

lemma hardware_SomeI:
  assumes "poll_status M (start_accelerator M A B s) = Some s4"
  shows "\<exists>r. hardware_matrix_operations M A B HW_Sum HW_Diff HW_Prod s = Some r"
  using assms
  by (auto simp: hardware_matrix_operations_def Let_def split: option.splits prod.splits)

lemma hardware_None_iff:
  "hardware_matrix_operations M A B HW_Sum HW_Diff HW_Prod s = None \<longleftrightarrow>
   poll_status M (start_accelerator M A B s) = None"
  by (auto simp: hardware_matrix_operations_def Let_def split: option.splits prod.splits)

section \<open>The access log\<close>

lemma fst_mmio_write: "fst (mmio_write M a v s) = dev_write M (fst s) a v"
  by (simp add: mmio_write_def)

lemma log_mmio_write: "snd (mmio_write M a v s) = snd s @ [Write a v]"
  by (simp add: mmio_write_def)

lemma log_mmio_read: "snd (snd (mmio_read M a s)) = snd s @ [Read a (fst (mmio_read M a s))]"
  by (simp add: mmio_read_def case_prod_beta)

lemma log_write_loop:
  "snd (fold (\<lambda>i s. mmio_write M (off + i) (f i) s) [0..<n] s) =
     snd s @ map (\<lambda>i. Write (off + i) (f i)) [0..<n]"
  by (induction n) (simp_all add: log_mmio_write)

lemma log_write_operand:
  "snd (write_operand M off X s) = snd s @ operand_writes off X"
  unfolding write_operand_def operand_writes_def by (rule log_write_loop)

lemma log_start_accelerator:
  "snd (start_accelerator M A B s) =
     snd s @ operand_writes A_OFFSET A @ operand_writes B_OFFSET B @ [Write CONTROL_OFFSET 1]"
  by (simp add: start_accelerator_def Let_def log_mmio_write log_write_operand)

lemma nth_operand_writes: "i < 16 \<Longrightarrow> operand_writes off X ! i = Write (off + i) (scast (X ! i))"
  by (simp add: operand_writes_def)

lemma length_operand_writes: "length (operand_writes off X) = 16"
  by (simp add: operand_writes_def)

lemma log_status_reads:
  "snd (status_reads M n s) = snd s @ status_log M n s"
proof (induction n)
  case 0
  then show ?case by (simp add: status_log_def)
next
  case (Suc n)
  have "snd (status_reads M (Suc n) s) =
      snd (status_reads M n s) @ [Read STATUS_OFFSET (nth_status M n s)]"
    by (simp only: status_reads_Suc_right log_mmio_read nth_status_def)
  with Suc show ?case by (simp add: status_log_def)
qed

lemma read_loop_invariant:
  assumes "n \<le> length X"
    and "fold (read_step M off) [0..<n] (X, s) = (X', s')"
  shows "length X' = length X
       \<and> snd s' = snd s @ map (\<lambda>i. Read (off + i) (X' ! i)) [0..<n]
       \<and> (\<forall>i\<ge>n. X' ! i = X ! i)"
  using assms
proof (induction n arbitrary: X' s')
  case 0
  then show ?case by simp
next
  case (Suc n)
  obtain Y t where prev: "fold (read_step M off) [0..<n] (X, s) = (Y, t)"
    by (cases "fold (read_step M off) [0..<n] (X, s)") blast
  have n: "n \<le> length X" using Suc.prems(1) by simp
  from Suc.IH [OF n prev] have ih: "length Y = length X"
    "snd t = snd s @ map (\<lambda>i. Read (off + i) (Y ! i)) [0..<n]" "\<forall>i\<ge>n. Y ! i = X ! i"
    by simp_all
  have "read_step M off n (Y, t) = (X', s')"
    using Suc.prems(2) prev by simp
  then have X': "X' = Y[n := fst (mmio_read M (off + n) t)]"
    and s': "s' = snd (mmio_read M (off + n) t)"
    by (auto simp: read_step_def case_prod_beta)
  have nY: "n < length Y" using ih(1) Suc.prems(1) by simp
  have old: "map (\<lambda>i. Read (off + i) (X' ! i)) [0..<n] = map (\<lambda>i. Read (off + i) (Y ! i)) [0..<n]"
    by (simp add: X')
  have new: "X' ! n = fst (mmio_read M (off + n) t)"
    using nY by (simp add: X')
  have "snd s' = snd t @ [Read (off + n) (X' ! n)]"
    by (simp add: s' log_mmio_read new)
  then have log: "snd s' = snd s @ map (\<lambda>i. Read (off + i) (X' ! i)) [0..<Suc n]"
    by (simp add: ih(2) old)
  have keep: "\<forall>i\<ge>Suc n. X' ! i = X ! i"
    using ih(3) by (simp add: X')
  have "length X' = length X" by (simp add: X' ih(1))
  with log keep show ?case by blast
qed

lemma log_read_result:
  assumes "length X = 16" and "read_result M off X s = (X', s')"
  shows "length X' = 16 \<and> snd s' = snd s @ result_reads off X'"
  using read_loop_invariant [of 16 X M off s X' s'] assms
  by (simp add: read_result_def result_reads_def)

lemma driver_returning_log:
  assumes "length HW_Sum = 16" and "length HW_Diff = 16" and "length HW_Prod = 16"
    and "hardware_matrix_operations M A B HW_Sum HW_Diff HW_Prod s = Some ((S, D, P), s')"
  shows "\<exists>n. snd s' = snd s
           @ operand_writes A_OFFSET A @ operand_writes B_OFFSET B
           @ [Write CONTROL_OFFSET 1]
           @ status_log M (Suc n) (start_accelerator M A B s)
           @ result_reads SUM_OFFSET S @ result_reads DIFF_OFFSET D @ result_reads PROD_OFFSET P
         \<and> (\<forall>m<n. nth_status M m (start_accelerator M A B s) AND 1 = 0)
         \<and> nth_status M n (start_accelerator M A B s) AND 1 = 1"
proof -
  let ?s3 = "start_accelerator M A B s"
  from hardware_SomeD [OF assms(4)] obtain s4 s5 s6 where
    poll: "poll_status M ?s3 = Some s4"
    and rs: "read_result M SUM_OFFSET HW_Sum s4 = (S, s5)"
    and rd: "read_result M DIFF_OFFSET HW_Diff s5 = (D, s6)"
    and rp: "read_result M PROD_OFFSET HW_Prod s6 = (P, s')"
    by blast
  from poll_status_SomeD [OF poll] obtain n where
    last: "nth_status M n ?s3 AND 1 = 1"
    and before: "\<forall>m<n. nth_status M m ?s3 AND 1 = 0"
    and s4: "s4 = status_reads M (Suc n) ?s3"
    by blast
  have l4: "snd s4 = snd ?s3 @ status_log M (Suc n) ?s3"
    unfolding s4 by (rule log_status_reads)
  have l5: "snd s5 = snd s4 @ result_reads SUM_OFFSET S"
    using log_read_result [OF assms(1) rs] by simp
  have l6: "snd s6 = snd s5 @ result_reads DIFF_OFFSET D"
    using log_read_result [OF assms(2) rd] by simp
  have l7: "snd s' = snd s6 @ result_reads PROD_OFFSET P"
    using log_read_result [OF assms(3) rp] by simp
  have "snd s' = snd s
           @ operand_writes A_OFFSET A @ operand_writes B_OFFSET B
           @ [Write CONTROL_OFFSET 1]
           @ status_log M (Suc n) ?s3
           @ result_reads SUM_OFFSET S @ result_reads DIFF_OFFSET D @ result_reads PROD_OFFSET P"
    by (simp only: l7 l6 l5 l4 log_start_accelerator append_assoc)
  with before last show ?thesis by blast
qed

lemma driver_blocked_log:
  assumes "hardware_matrix_operations M A B HW_Sum HW_Diff HW_Prod s = None"
  shows "snd (status_reads M n (start_accelerator M A B s)) = snd s
           @ operand_writes A_OFFSET A @ operand_writes B_OFFSET B
           @ [Write CONTROL_OFFSET 1]
           @ status_log M n (start_accelerator M A B s)
       \<and> poll_status M (status_reads M n (start_accelerator M A B s)) = None"
proof -
  let ?s3 = "start_accelerator M A B s"
  have none: "poll_status M ?s3 = None"
    using assms by (simp only: hardware_None_iff)
  then have "\<forall>m<n. nth_status M m ?s3 AND 1 = 0"
    by (simp add: poll_status_None_iff)
  then have "poll_status M ?s3 = poll_status M (status_reads M n ?s3)"
    by (rule poll_status_skip)
  with none have "poll_status M (status_reads M n ?s3) = None" by simp
  then show ?thesis
    by (simp add: log_status_reads log_start_accelerator)
qed

section \<open>The timer readback and the speedup\<close>

lemma stop_hi_first:
  "timer_stop_and_read T True s =
     (0xFFFFFFFF -
        (push_bit 16 (fst (mmio_read T 5 (mmio_write T 4 1 (mmio_write T 1 8 s))))
         OR fst (mmio_read T 4 (snd (mmio_read T 5 (mmio_write T 4 1 (mmio_write T 1 8 s)))))),
      snd (mmio_read T 4 (snd (mmio_read T 5 (mmio_write T 4 1 (mmio_write T 1 8 s))))))"
  by (simp add: timer_stop_and_read_def Let_def case_prod_beta)

lemma stop_lo_first:
  "timer_stop_and_read T False s =
     (0xFFFFFFFF -
        (push_bit 16 (fst (mmio_read T 5 (snd (mmio_read T 4 (mmio_write T 4 1 (mmio_write T 1 8 s))))))
         OR fst (mmio_read T 4 (mmio_write T 4 1 (mmio_write T 1 8 s)))),
      snd (mmio_read T 5 (snd (mmio_read T 4 (mmio_write T 4 1 (mmio_write T 1 8 s))))))"
  by (simp add: timer_stop_and_read_def Let_def case_prod_beta)

lemma timer_readback_values:
  fixes hi lo :: u32
  assumes "cycles = 0xFFFFFFFF - (push_bit 16 hi OR lo)"
  shows "bit (8 :: u32) 3
       \<and> cycles = 0xFFFFFFFF - (push_bit 16 hi OR lo)
       \<and> unat cycles = 4294967295 - unat (push_bit 16 hi OR lo)
       \<and> (hi < 2 ^ 16 \<and> lo < 2 ^ 16 \<longrightarrow>
              unat (push_bit 16 hi OR lo) = 65536 * unat hi + unat lo)"
proof -
  have b: "bit (8 :: u32) 3"
    by (simp add: bit_iff_odd)
  have u: "unat cycles = 4294967295 - unat (push_bit 16 hi OR lo)"
    unfolding assms by (rule unat_elapsed)
  have h: "hi < 2 ^ 16 \<and> lo < 2 ^ 16 \<longrightarrow>
              unat (push_bit 16 hi OR lo) = 65536 * unat hi + unat lo"
    using unat_count_halves [of hi lo] by blast
  from b assms u h show ?thesis by blast
qed

lemma benchmark_faults:
  assumes "hardware_matrix_operations M A B buf buf buf ms = Some r"
    and "\<And>s. fst (timer_stop_and_read T hi_first s) = 0"
  shows "benchmark T M hi_first A B buf ts ms = Some (Inl DivisionByZero)"
  using assms
  by (cases r) (simp add: benchmark_def Let_def case_prod_beta speedup_def)

section \<open>The driver on the peripheral\<close>

lemma accel_write_A_loop:
  "n \<le> 16 \<Longrightarrow>
   fst (fold (\<lambda>i s. mmio_write accelerator (A_OFFSET + i) (f i) s) [0..<n] (st, lg)) =
     st\<lparr>a_regs := fold (\<lambda>i xs. xs[i := f i]) [0..<n] (a_regs st)\<rparr>"
  by (induction n) (simp_all add: fst_mmio_write accelerator_def accel_write_def A_OFFSET_def)

lemma accel_write_B_loop:
  "n \<le> 16 \<Longrightarrow>
   fst (fold (\<lambda>i s. mmio_write accelerator (B_OFFSET + i) (f i) s) [0..<n] (st, lg)) =
     st\<lparr>b_regs := fold (\<lambda>i xs. xs[i := f i]) [0..<n] (b_regs st)\<rparr>"
  by (induction n) (simp_all add: fst_mmio_write accelerator_def accel_write_def B_OFFSET_def)

lemma accel_after_start:
  assumes "accel_ok st"
  shows "fst (start_accelerator accelerator A B (st, lg)) =
     accel_compute (st\<lparr>a_regs := map (\<lambda>i. scast (A ! i)) [0..<16],
                        b_regs := map (\<lambda>i. scast (B ! i)) [0..<16]\<rparr>)"
proof -
  obtain lg1 where s1: "write_operand accelerator A_OFFSET A (st, lg) =
      (st\<lparr>a_regs := map (\<lambda>i. scast (A ! i)) [0..<16]\<rparr>, lg1)"
    using accel_write_A_loop [of 16 "\<lambda>i. scast (A ! i)" st lg] assms
    by (cases "write_operand accelerator A_OFFSET A (st, lg)")
       (simp add: write_operand_def accel_ok_def filled_eq_map)
  obtain lg2 where s2: "write_operand accelerator B_OFFSET B
        (st\<lparr>a_regs := map (\<lambda>i. scast (A ! i)) [0..<16]\<rparr>, lg1) =
      (st\<lparr>a_regs := map (\<lambda>i. scast (A ! i)) [0..<16],
          b_regs := map (\<lambda>i. scast (B ! i)) [0..<16]\<rparr>, lg2)"
    using accel_write_B_loop [of 16 "\<lambda>i. scast (B ! i)"
        "st\<lparr>a_regs := map (\<lambda>i. scast (A ! i)) [0..<16]\<rparr>" lg1] assms
    by (cases "write_operand accelerator B_OFFSET B
        (st\<lparr>a_regs := map (\<lambda>i. scast (A ! i)) [0..<16]\<rparr>, lg1)")
       (simp add: write_operand_def accel_ok_def filled_eq_map)
  have "start_accelerator accelerator A B (st, lg) =
      mmio_write accelerator CONTROL_OFFSET 1
        (st\<lparr>a_regs := map (\<lambda>i. scast (A ! i)) [0..<16],
            b_regs := map (\<lambda>i. scast (B ! i)) [0..<16]\<rparr>, lg2)"
    by (simp add: start_accelerator_def Let_def s1 s2)
  then show ?thesis
    by (simp add: fst_mmio_write accelerator_def accel_write_def CONTROL_OFFSET_def)
qed

lemma accel_poll:
  "pending st = Some p \<Longrightarrow>
   \<exists>lg'. poll_status accelerator (st, lg) = Some (st\<lparr>pending := Some 0\<rparr>, lg')"
proof (induction p arbitrary: st lg)
  case 0
  then have "fst (mmio_read accelerator STATUS_OFFSET (st, lg)) AND 1 = 1"
    and "fst (snd (mmio_read accelerator STATUS_OFFSET (st, lg))) = st\<lparr>pending := Some 0\<rparr>"
    by (simp_all add: mmio_read_def accelerator_def accel_read_def STATUS_OFFSET_def)
  then show ?case
    using poll_status_done [of accelerator "(st, lg)"]
    by (metis prod.collapse)
next
  case (Suc p)
  then have busy: "fst (mmio_read accelerator STATUS_OFFSET (st, lg)) AND 1 = 0"
    and next_state: "fst (snd (mmio_read accelerator STATUS_OFFSET (st, lg))) = st\<lparr>pending := Some p\<rparr>"
    by (simp_all add: mmio_read_def accelerator_def accel_read_def STATUS_OFFSET_def)
  obtain lg1 where s1: "snd (mmio_read accelerator STATUS_OFFSET (st, lg)) = (st\<lparr>pending := Some p\<rparr>, lg1)"
    using next_state by (metis prod.collapse)
  have "pending (st\<lparr>pending := Some p\<rparr>) = Some p" by simp
  from Suc.IH [OF this, of lg1] obtain lg' where
    "poll_status accelerator (st\<lparr>pending := Some p\<rparr>, lg1) = Some (st\<lparr>pending := Some 0\<rparr>, lg')"
    by auto
  then show ?case
    using poll_status_busy [OF busy] s1 by simp
qed

lemma accel_read_loop:
  "off + n \<le> 80 \<Longrightarrow>
   \<exists>lg'. fold (read_step accelerator off) [0..<n] (X, (st, lg)) =
     (fold (\<lambda>i X. X[i := fst (accel_read st (off + i))]) [0..<n] X, (st, lg'))"
proof (induction n)
  case 0
  then show ?case by simp
next
  case (Suc n)
  then obtain lg1 where prev: "fold (read_step accelerator off) [0..<n] (X, (st, lg)) =
     (fold (\<lambda>i X. X[i := fst (accel_read st (off + i))]) [0..<n] X, (st, lg1))"
    by auto
  let ?Y = "fold (\<lambda>i X. X[i := fst (accel_read st (off + i))]) [0..<n] X"
  have keep: "snd (accel_read st (off + n)) = st"
    using Suc.prems by (simp add: accel_read_def)
  have "fold (read_step accelerator off) [0..<Suc n] (X, (st, lg)) =
      read_step accelerator off n (?Y, (st, lg1))"
    by (simp add: prev)
  also have "\<dots> = (?Y[n := fst (accel_read st (off + n))],
      (st, lg1 @ [Read (off + n) (fst (accel_read st (off + n)))]))"
    using keep by (simp add: read_step_def mmio_read_def accelerator_def case_prod_beta)
  finally show ?case by simp
qed

lemma accel_read_result:
  assumes "length X = 16" and "off + 16 \<le> 80"
  shows "\<exists>lg'. read_result accelerator off X (st, lg) =
     (map (\<lambda>i. fst (accel_read st (off + i))) [0..<16], (st, lg'))"
  using accel_read_loop [OF assms(2), of X st lg] filled_eq_map [OF assms(1)]
  by (simp add: read_result_def)

lemma accel_sum_cell:
  "word_of_int (low16 (scast (a :: s16)) + low16 (scast (b :: s16))) = (scast a + scast b :: s32)"
  by (simp add: low16_scast)

lemma accel_diff_cell:
  "word_of_int (low16 (scast (a :: s16)) - low16 (scast (b :: s16))) = (scast a - scast b :: s32)"
  by (simp add: low16_scast)

lemma accel_prod_cell:
  "word_of_int (sum_list (map (\<lambda>k. low16 (scast (A ! (i * 4 + k) :: s16)) * low16 (scast (B ! (k * 4 + j) :: s16))) [0..<4]))
     = dot_loop A B i j 4"
proof -
  have "[0..<4] = [0, 1, 2, 3]" by (simp add: upt_rec)
  then have "sum_list (map (\<lambda>k. low16 (scast (A ! (i * 4 + k) :: s16)) * low16 (scast (B ! (k * 4 + j) :: s16))) [0..<4])
      = sint (A ! (i * 4 + 0)) * sint (B ! (0 * 4 + j)) + sint (A ! (i * 4 + 1)) * sint (B ! (1 * 4 + j))
        + sint (A ! (i * 4 + 2)) * sint (B ! (2 * 4 + j)) + sint (A ! (i * 4 + 3)) * sint (B ! (3 * 4 + j))"
    by (simp add: low16_scast)
  then show ?thesis
    by (simp add: dot_loop_4)
qed

lemma accel_compute_fields:
  "sum_regs (accel_compute st) =
     map (\<lambda>i. word_of_int (low16 (a_regs st ! i) + low16 (b_regs st ! i))) [0..<16]"
  "diff_regs (accel_compute st) =
     map (\<lambda>i. word_of_int (low16 (a_regs st ! i) - low16 (b_regs st ! i))) [0..<16]"
  "prod_regs (accel_compute st) =
     map (\<lambda>m. word_of_int (sum_list (map (\<lambda>k. low16 (a_regs st ! (m div 4 * 4 + k)) *
        low16 (b_regs st ! (k * 4 + m mod 4))) [0..<4]))) [0..<16]"
  "pending (accel_compute st) = Some (latency st)"
  "latency (accel_compute st) = latency st"
  "busy_word (accel_compute st) = busy_word st"
  unfolding accel_compute_def by simp_all

lemma loaded_nth:
  "i < 16 \<Longrightarrow> map (\<lambda>i. scast (X ! i)) [0..<16] ! i = (scast (X ! i :: s16) :: u32)"
  by (simp del: upt_Suc)

lemma accel_sum_loaded:
  assumes "a_regs st = map (\<lambda>i. scast (A ! i)) [0..<16]"
    and "b_regs st = map (\<lambda>i. scast (B ! i)) [0..<16]"
  shows "sum_regs (accel_compute st) = map (add_elem A B) [0..<16]"
  unfolding accel_compute_fields assms
proof (rule map_cong [OF refl])
  fix i assume "i \<in> set [0..<16]"
  then have "i < 16" by simp
  then show "word_of_int (low16 (map (\<lambda>i. scast (A ! i)) [0..<16] ! i)
      + low16 (map (\<lambda>i. scast (B ! i)) [0..<16] ! i)) = add_elem A B i"
    by (simp only: loaded_nth accel_sum_cell add_elem_def)
qed

lemma accel_diff_loaded:
  assumes "a_regs st = map (\<lambda>i. scast (A ! i)) [0..<16]"
    and "b_regs st = map (\<lambda>i. scast (B ! i)) [0..<16]"
  shows "diff_regs (accel_compute st) = map (sub_elem A B) [0..<16]"
  unfolding accel_compute_fields assms
proof (rule map_cong [OF refl])
  fix i assume "i \<in> set [0..<16]"
  then have "i < 16" by simp
  then show "word_of_int (low16 (map (\<lambda>i. scast (A ! i)) [0..<16] ! i)
      - low16 (map (\<lambda>i. scast (B ! i)) [0..<16] ! i)) = sub_elem A B i"
    by (simp only: loaded_nth accel_diff_cell sub_elem_def)
qed

lemma accel_prod_loaded:
  assumes "a_regs st = map (\<lambda>i. scast (A ! i)) [0..<16]"
    and "b_regs st = map (\<lambda>i. scast (B ! i)) [0..<16]"
  shows "prod_regs (accel_compute st) = map (\<lambda>m. dot_loop A B (m div 4) (m mod 4) 4) [0..<16]"
  unfolding accel_compute_fields assms
proof (rule map_cong [OF refl])
  fix m assume "m \<in> set [0..<16]"
  then have m: "m < 16" by simp
  have "map (\<lambda>k. low16 (map (\<lambda>i. scast (A ! i)) [0..<16] ! (m div 4 * 4 + k)) *
        low16 (map (\<lambda>i. scast (B ! i)) [0..<16] ! (k * 4 + m mod 4))) [0..<4]
      = map (\<lambda>k. low16 (scast (A ! (m div 4 * 4 + k))) * low16 (scast (B ! (k * 4 + m mod 4)))) [0..<4]"
  proof (rule map_cong [OF refl])
    fix k assume "k \<in> set [0..<4]"
    then have k: "k < 4" by simp
    have "m div 4 * 4 + k < 16" "k * 4 + m mod 4 < 16"
      using m k by presburger+
    then show "low16 (map (\<lambda>i. scast (A ! i)) [0..<16] ! (m div 4 * 4 + k)) *
        low16 (map (\<lambda>i. scast (B ! i)) [0..<16] ! (k * 4 + m mod 4))
      = low16 (scast (A ! (m div 4 * 4 + k))) * low16 (scast (B ! (k * 4 + m mod 4)))"
      by (simp only: loaded_nth)
  qed
  then show "word_of_int (sum_list (map (\<lambda>k.
        low16 (map (\<lambda>i. scast (A ! i)) [0..<16] ! (m div 4 * 4 + k)) *
        low16 (map (\<lambda>i. scast (B ! i)) [0..<16] ! (k * 4 + m mod 4))) [0..<4]))
      = dot_loop A B (m div 4) (m mod 4) 4"
    by (simp only: accel_prod_cell)
qed

lemma accel_read_sum:
  assumes "length (sum_regs st) = 16" and "accel_done st"
  shows "map (\<lambda>i. fst (accel_read st (SUM_OFFSET + i))) [0..<16] = sum_regs st"
proof -
  have "map (\<lambda>i. fst (accel_read st (SUM_OFFSET + i))) [0..<16] = map (\<lambda>i. sum_regs st ! i) [0..<16]"
    using assms(2) by (intro map_cong [OF refl]) (simp add: accel_read_def SUM_OFFSET_def)
  then show ?thesis by (simp only: map_nth_16 [OF assms(1)])
qed

lemma accel_read_diff:
  assumes "length (diff_regs st) = 16" and "accel_done st"
  shows "map (\<lambda>i. fst (accel_read st (DIFF_OFFSET + i))) [0..<16] = diff_regs st"
proof -
  have "map (\<lambda>i. fst (accel_read st (DIFF_OFFSET + i))) [0..<16] = map (\<lambda>i. diff_regs st ! i) [0..<16]"
    using assms(2) by (intro map_cong [OF refl]) (simp add: accel_read_def DIFF_OFFSET_def)
  then show ?thesis by (simp only: map_nth_16 [OF assms(1)])
qed

lemma accel_read_prod:
  assumes "length (prod_regs st) = 16" and "accel_done st"
  shows "map (\<lambda>i. fst (accel_read st (PROD_OFFSET + i))) [0..<16] = prod_regs st"
proof -
  have "map (\<lambda>i. fst (accel_read st (PROD_OFFSET + i))) [0..<16] = map (\<lambda>i. prod_regs st ! i) [0..<16]"
    using assms(2) by (intro map_cong [OF refl]) (simp add: accel_read_def PROD_OFFSET_def)
  then show ?thesis by (simp only: map_nth_16 [OF assms(1)])
qed

lemma accel_run:
  assumes "accel_ok st"
    and "length HW_Sum = 16" and "length HW_Diff = 16" and "length HW_Prod = 16"
  shows "\<exists>s'. hardware_matrix_operations accelerator A B HW_Sum HW_Diff HW_Prod (st, lg) =
     Some ((map (add_elem A B) [0..<16], map (sub_elem A B) [0..<16],
            map (\<lambda>m. dot_loop A B (m div 4) (m mod 4) 4) [0..<16]), s')"
proof -
  define ld where "ld = st\<lparr>a_regs := map (\<lambda>i. scast (A ! i)) [0..<16],
                        b_regs := map (\<lambda>i. scast (B ! i)) [0..<16]\<rparr>"
  define st4 where "st4 = (accel_compute ld)\<lparr>pending := Some 0\<rparr>"
  have ld: "a_regs ld = map (\<lambda>i. scast (A ! i)) [0..<16]" "b_regs ld = map (\<lambda>i. scast (B ! i)) [0..<16]"
    by (simp_all add: ld_def)
  have "fst (start_accelerator accelerator A B (st, lg)) = accel_compute ld"
    unfolding ld_def by (rule accel_after_start [OF assms(1)])
  then obtain lg3 where s3: "start_accelerator accelerator A B (st, lg) = (accel_compute ld, lg3)"
    by (metis prod.collapse)
  have "pending (accel_compute ld) = Some (latency ld)"
    by (rule accel_compute_fields)
  from accel_poll [OF this, of lg3] obtain lg4 where
    s4: "poll_status accelerator (accel_compute ld, lg3) = Some (st4, lg4)"
    unfolding st4_def by blast
  have sums: "sum_regs st4 = map (add_elem A B) [0..<16]"
    and diffs: "diff_regs st4 = map (sub_elem A B) [0..<16]"
    and prods: "prod_regs st4 = map (\<lambda>m. dot_loop A B (m div 4) (m mod 4) 4) [0..<16]"
    using accel_sum_loaded [OF ld] accel_diff_loaded [OF ld] accel_prod_loaded [OF ld]
    by (simp_all add: st4_def)
  have lens: "length (sum_regs st4) = 16" "length (diff_regs st4) = 16" "length (prod_regs st4) = 16"
    by (simp_all only: sums diffs prods length_map length_upt)
  have ready: "accel_done st4"
    by (simp add: st4_def accel_done_def)
  obtain lg5 where r5: "read_result accelerator SUM_OFFSET HW_Sum (st4, lg4) =
      (map (add_elem A B) [0..<16], (st4, lg5))"
    using accel_read_result [OF assms(2), of SUM_OFFSET st4 lg4] accel_read_sum [OF lens(1) ready]
    by (auto simp: SUM_OFFSET_def sums)
  obtain lg6 where r6: "read_result accelerator DIFF_OFFSET HW_Diff (st4, lg5) =
      (map (sub_elem A B) [0..<16], (st4, lg6))"
    using accel_read_result [OF assms(3), of DIFF_OFFSET st4 lg5] accel_read_diff [OF lens(2) ready]
    by (auto simp: DIFF_OFFSET_def diffs)
  obtain lg7 where r7: "read_result accelerator PROD_OFFSET HW_Prod (st4, lg6) =
      (map (\<lambda>m. dot_loop A B (m div 4) (m mod 4) 4) [0..<16], (st4, lg7))"
    using accel_read_result [OF assms(4), of PROD_OFFSET st4 lg6] accel_read_prod [OF lens(3) ready]
    by (auto simp: PROD_OFFSET_def prods)
  show ?thesis
    by (simp add: hardware_matrix_operations_def Let_def s3 s4 r5 r6 r7 del: upt_Suc)
qed

lemma accel_busy_after_start:
  assumes "accel_ok st" and "latency st \<noteq> 0"
  shows "nth_status accelerator 0 (start_accelerator accelerator A B (st, lg)) AND 1 = 0"
    and "32 \<le> a \<Longrightarrow> a < 80 \<Longrightarrow>
         fst (accel_read (fst (start_accelerator accelerator A B (st, lg))) a) = busy_word st"
proof -
  define ld where "ld = st\<lparr>a_regs := map (\<lambda>i. scast (A ! i)) [0..<16],
                        b_regs := map (\<lambda>i. scast (B ! i)) [0..<16]\<rparr>"
  have st3: "fst (start_accelerator accelerator A B (st, lg)) = accel_compute ld"
    unfolding ld_def by (rule accel_after_start [OF assms(1)])
  obtain p where p: "latency st = Suc p"
    using assms(2) by (cases "latency st") simp_all
  have pend: "pending (accel_compute ld) = Some (Suc p)"
    by (simp add: accel_compute_fields ld_def p)
  have busy: "busy_word (accel_compute ld) = busy_word st"
    by (simp add: accel_compute_fields ld_def)
  show "nth_status accelerator 0 (start_accelerator accelerator A B (st, lg)) AND 1 = 0"
    using st3 pend
    by (simp add: nth_status_0 mmio_read_def accelerator_def accel_read_def STATUS_OFFSET_def
        case_prod_beta)
  show "fst (accel_read (fst (start_accelerator accelerator A B (st, lg))) a) = busy_word st"
    if "32 \<le> a" "a < 80"
    using that pend busy by (simp add: st3 accel_read_def accel_done_def)
qed

section \<open>Facts about the concrete devices and operands\<close>

lemma safe_example_A: "safe_matrix example_A"
  by (simp add: safe_matrix_def example_A_def safe_elem_def SAFE_INPUT_MAX_def)

lemma safe_identity4: "safe_matrix identity4"
  by (simp add: safe_matrix_def identity4_def safe_elem_def SAFE_INPUT_MAX_def)

lemma safe_max_matrix: "safe_matrix max_matrix"
  by (simp add: safe_matrix_def max_matrix_def safe_elem_def SAFE_INPUT_MAX_def list_all_iff)

lemma nth_status_dead: "nth_status dead_device n s = 0"
  by (simp add: nth_status_def mmio_read_def dead_device_def)

lemma nth_status_ready: "nth_status ready_device n s = 1"
  by (simp add: nth_status_def mmio_read_def ready_device_def)

lemma poll_ready: "poll_status ready_device s = Some (snd (mmio_read ready_device STATUS_OFFSET s))"
  by (rule poll_status_done) (simp add: mmio_read_def ready_device_def)

lemma hardware_ready:
  "\<exists>r. hardware_matrix_operations ready_device A B HW_Sum HW_Diff HW_Prod s = Some r"
  using poll_ready by (rule hardware_SomeI)

lemma stop_reloaded_timer: "fst (timer_stop_and_read reloaded_timer hi_first s) = 0"
  by (cases hi_first) (simp_all add: stop_hi_first stop_lo_first mmio_read_def reloaded_timer_def)

lemma accel_reset_ok: "accel_ok (accel_reset n)"
  by (simp add: accel_ok_def accel_reset_def)

section \<open>The claims\<close>

subsection \<open>The software engine\<close>

text \<open>
  C2. For operands in the safe range, every cell \<open>Product[i*4+j]\<close> that
  \<open>software_matrix_operations\<close> stores is the accumulation, from zero, of the four
  products of the operands widened to 32 bits: as a 32-bit word it is the sum of the
  widened products, and its signed value is the exact integer sum
  \<open>\<Sum>k<4. A[i*4+k] * B[k*4+j]\<close>. With the identity matrix on either side the cell is the
  other operand's cell, widened.
\<close>

theorem software_product_is_matrix_product:
  assumes "safe_matrix A" and "safe_matrix B"
    and "length SW_Sum = 16" and "length SW_Diff = 16" and "length SW_Result = 16"
    and "software_matrix_operations A B SW_Sum SW_Diff SW_Result = (S, D, P)"
    and "i < 4" and "j < 4"
  shows "P ! (i * 4 + j) = dot_loop A B i j 4
       \<and> P ! (i * 4 + j) = (\<Sum>k = 0..<4. scast (A ! (i * 4 + k)) * scast (B ! (k * 4 + j)))
       \<and> sint (P ! (i * 4 + j)) = (\<Sum>k = 0..<4. sint (A ! (i * 4 + k)) * sint (B ! (k * 4 + j)))
       \<and> (A = identity4 \<longrightarrow> P ! (i * 4 + j) = scast (B ! (i * 4 + j)))
       \<and> (B = identity4 \<longrightarrow> P ! (i * 4 + j) = scast (A ! (i * 4 + j)))"
proof -
  have cell: "P ! (i * 4 + j) = dot_loop A B i j 4"
    using software_prod_cell [OF assms(5,7,8), of A B SW_Sum SW_Diff] assms(6) by simp
  have exact: "sint (dot_loop A B i j 4) = (\<Sum>k = 0..<4. sint (A ! (i * 4 + k)) * sint (B ! (k * 4 + j)))"
    using dot_loop_bound [OF assms(1,2,7,8), of 4] by simp
  have word: "P ! (i * 4 + j) = (\<Sum>k = 0..<4. scast (A ! (i * 4 + k)) * scast (B ! (k * 4 + j)))"
    using cell by (simp only: dot_loop_word_sum)
  have left: "A = identity4 \<longrightarrow> P ! (i * 4 + j) = scast (B ! (i * 4 + j))"
    using cell dot_loop_identity_left [OF assms(7,8), of B] by simp
  have right: "B = identity4 \<longrightarrow> P ! (i * 4 + j) = scast (A ! (i * 4 + j))"
    using cell dot_loop_identity_right [OF assms(7,8), of A] by simp
  from cell word exact left right show ?thesis
    by (simp only: simp_thms)
qed

text \<open>The identity times the matrix \<open>1 .. 16\<close>: the cell in row 2, column 1 is 10.\<close>

theorem software_product_is_matrix_product_witness:
  "snd (snd (software_matrix_operations identity4 example_A zero_buffer zero_buffer zero_buffer)) ! (2 * 4 + 1) = 10"
proof -
  let ?r = "software_matrix_operations identity4 example_A zero_buffer zero_buffer zero_buffer"
  have len: "length zero_buffer = 16" by (simp add: zero_buffer_def)
  have run: "?r = (fst ?r, fst (snd ?r), snd (snd ?r))" by simp
  have two: "(2::nat) < 4" and one: "(1::nat) < 4" by simp_all
  from software_product_is_matrix_product [OF safe_identity4 safe_example_A len len len run two one]
  have "snd (snd ?r) ! (2 * 4 + 1) = scast (example_A ! (2 * 4 + 1))" by blast
  then show ?thesis by (simp add: example_A_def)
qed

text \<open>
  C3. For all 16-element operand arrays and every index \<open>i < 16\<close>, \<open>Sum[i]\<close> is the
  32-bit sum and \<open>Diff[i]\<close> the 32-bit difference of the two operands widened to 32
  bits; their signed values are the exact integer sum and difference, whatever the
  operands.
\<close>

theorem software_sum_diff_widened:
  assumes "length A = 16" and "length B = 16"
    and "length SW_Sum = 16" and "length SW_Diff = 16" and "length SW_Result = 16"
    and "software_matrix_operations A B SW_Sum SW_Diff SW_Result = (S, D, P)"
    and "i < 16"
  shows "S ! i = scast (A ! i) + scast (B ! i)
       \<and> D ! i = scast (A ! i) - scast (B ! i)
       \<and> sint (S ! i) = sint (A ! i) + sint (B ! i)
       \<and> sint (D ! i) = sint (A ! i) - sint (B ! i)"
proof -
  have "S ! i = add_elem A B i"
    using software_sum_nth [OF assms(3,7), of A B SW_Diff SW_Result] assms(6) by simp
  moreover have "D ! i = sub_elem A B i"
    using software_diff_nth [OF assms(4,7), of A B SW_Sum SW_Result] assms(6) by simp
  ultimately show ?thesis
    using sint_add_elem [of A B i] sint_sub_elem [of A B i]
    by (simp add: add_elem_def sub_elem_def)
qed

text \<open>Index 5 of \<open>1 .. 16\<close> and the identity: \<open>6 + 1\<close> and \<open>6 - 1\<close>.\<close>

theorem software_sum_diff_widened_witness:
  "sint (fst (software_matrix_operations example_A identity4 zero_buffer zero_buffer zero_buffer) ! 5) = 7
   \<and> sint (fst (snd (software_matrix_operations example_A identity4 zero_buffer zero_buffer zero_buffer)) ! 5) = 5"
proof -
  let ?r = "software_matrix_operations example_A identity4 zero_buffer zero_buffer zero_buffer"
  have len: "length zero_buffer = 16" by (simp add: zero_buffer_def)
  have lenA: "length example_A = 16" by (simp add: example_A_def)
  have lenB: "length identity4 = 16" by (simp add: identity4_def)
  have run: "?r = (fst ?r, fst (snd ?r), snd (snd ?r))" by simp
  have five: "(5::nat) < 16" by simp
  from software_sum_diff_widened [OF lenA lenB len len len run five]
  have "sint (fst ?r ! 5) = sint (example_A ! 5) + sint (identity4 ! 5)"
    and "sint (fst (snd ?r) ! 5) = sint (example_A ! 5) - sint (identity4 ! 5)"
    by blast+
  then show ?thesis by (simp add: example_A_def identity4_def)
qed

text \<open>
  C4. For operands in the safe range \<open>-23170 .. 23170\<close> no operation of the software
  engine overflows a signed 32-bit integer: not the widened addition and subtraction of
  any element pair, not the widened product of any \<open>A[i*4+k]\<close> and \<open>B[k*4+j]\<close>, and
  not the addition of that product to the accumulator after \<open>k\<close> terms; every partial sum
  is an \<open>int32_t\<close> and is the signed value of the accumulator.
\<close>

theorem software_no_overflow_in_safe_range:
  assumes "safe_matrix A" and "safe_matrix B"
  shows "(\<forall>i<16. add_no_overflow (scast (A ! i)) (scast (B ! i))
                \<and> sub_no_overflow (scast (A ! i)) (scast (B ! i)))
       \<and> (\<forall>i<4. \<forall>j<4. \<forall>k<4.
            mul_no_overflow (scast (A ! (i * 4 + k))) (scast (B ! (k * 4 + j)))
          \<and> add_no_overflow (dot_loop A B i j k)
               (scast (A ! (i * 4 + k)) * scast (B ! (k * 4 + j)))
          \<and> in_int32 (\<Sum>n = 0..<Suc k. sint (A ! (i * 4 + n)) * sint (B ! (n * 4 + j)))
          \<and> sint (dot_loop A B i j (Suc k)) =
              (\<Sum>n = 0..<Suc k. sint (A ! (i * 4 + n)) * sint (B ! (n * 4 + j))))"
proof -
  have elems: "add_no_overflow (scast (A ! i)) (scast (B ! i)) \<and> sub_no_overflow (scast (A ! i)) (scast (B ! i))" for i
    using add_elem_in_int32 [of "A ! i" "B ! i"] sub_elem_in_int32 [of "A ! i" "B ! i"]
    by (simp add: add_no_overflow_def sub_no_overflow_def)
  have cells: "mul_no_overflow (scast (A ! (i * 4 + k))) (scast (B ! (k * 4 + j)))
          \<and> add_no_overflow (dot_loop A B i j k)
               (scast (A ! (i * 4 + k)) * scast (B ! (k * 4 + j)))
          \<and> in_int32 (\<Sum>n = 0..<Suc k. sint (A ! (i * 4 + n)) * sint (B ! (n * 4 + j)))
          \<and> sint (dot_loop A B i j (Suc k)) =
              (\<Sum>n = 0..<Suc k. sint (A ! (i * 4 + n)) * sint (B ! (n * 4 + j)))"
    if "i < 4" "j < 4" "k < 4" for i j k
  proof -
    let ?t = "scast (A ! (i * 4 + k)) * scast (B ! (k * 4 + j)) :: s32"
    have tb: "- 536848900 \<le> sint (scast (A ! (i * 4 + k)) :: s32) * sint (scast (B ! (k * 4 + j)) :: s32)"
        "sint (scast (A ! (i * 4 + k)) :: s32) * sint (scast (B ! (k * 4 + j)) :: s32) \<le> 536848900"
      using safe_term_bound [OF assms that] by simp_all
    then have m: "mul_no_overflow (scast (A ! (i * 4 + k))) (scast (B ! (k * 4 + j)))"
      by (simp add: mul_no_overflow_def in_int32_def)
    have st: "sint ?t = sint (scast (A ! (i * 4 + k)) :: s32) * sint (scast (B ! (k * 4 + j)) :: s32)"
      using m by (simp add: mul_no_overflow_def sint_mult32)
    have k3: "int k \<le> 3" using that(3) by simp
    have acc: "- (int k * 536848900) \<le> sint (dot_loop A B i j k)"
        "sint (dot_loop A B i j k) \<le> int k * 536848900"
      using dot_loop_bound [OF assms that(1,2), of k] that(3) by simp_all
    have a: "add_no_overflow (dot_loop A B i j k) ?t"
      unfolding add_no_overflow_def in_int32_def st using acc tb k3 by simp
    have nxt: "- (int (Suc k) * 536848900) \<le> sint (dot_loop A B i j (Suc k))"
        "sint (dot_loop A B i j (Suc k)) \<le> int (Suc k) * 536848900"
        "sint (dot_loop A B i j (Suc k)) =
              (\<Sum>n = 0..<Suc k. sint (A ! (i * 4 + n)) * sint (B ! (n * 4 + j)))"
      using dot_loop_bound [OF assms that(1,2), of "Suc k"] that(3) by simp_all
    have "int (Suc k) \<le> 4" using that(3) by simp
    then have "in_int32 (sint (dot_loop A B i j (Suc k)))"
      using nxt(1,2) by (simp add: in_int32_def)
    then have r: "in_int32 (\<Sum>n = 0..<Suc k. sint (A ! (i * 4 + n)) * sint (B ! (n * 4 + j)))"
      by (simp only: nxt(3))
    from m a r nxt(3) show ?thesis by (simp only: simp_thms)
  qed
  from elems cells show ?thesis by blast
qed

text \<open>The extreme case, every element 23170: the last accumulation does not overflow
  and the cell is \<open>4 * 23170\<^sup>2 = 2147395600\<close>.\<close>

theorem software_no_overflow_in_safe_range_witness:
  "add_no_overflow (dot_loop max_matrix max_matrix 0 0 3)
     (scast (max_matrix ! (0 * 4 + 3)) * scast (max_matrix ! (3 * 4 + 0)))
   \<and> sint (dot_loop max_matrix max_matrix 0 0 (Suc 3)) = 2147395600"
proof -
  have z: "(0::nat) < 4" and t: "(3::nat) < 4" by simp_all
  from software_no_overflow_in_safe_range [OF safe_max_matrix safe_max_matrix] z t
  have "add_no_overflow (dot_loop max_matrix max_matrix 0 0 3)
     (scast (max_matrix ! (0 * 4 + 3)) * scast (max_matrix ! (3 * 4 + 0)))"
    and "sint (dot_loop max_matrix max_matrix 0 0 (Suc 3)) =
       (\<Sum>n = 0..<Suc 3. sint (max_matrix ! (0 * 4 + n)) * sint (max_matrix ! (n * 4 + 0)))"
    by blast+
  moreover have "(\<Sum>n = 0..<Suc 3. sint (max_matrix ! (0 * 4 + n)) * sint (max_matrix ! (n * 4 + 0))) = 2147395600"
    by (simp add: max_matrix_def)
  ultimately show ?thesis by simp
qed

text \<open>
  C5. For operands in the safe range and every index \<open>i < 16\<close>,
  \<open>Sum[i] + Diff[i] = 2 * A[i]\<close>: as 32-bit words, as integers, and as the signed
  value of the 32-bit sum.
\<close>

theorem software_sum_plus_diff:
  assumes "safe_matrix A" and "safe_matrix B"
    and "length SW_Sum = 16" and "length SW_Diff = 16" and "length SW_Result = 16"
    and "software_matrix_operations A B SW_Sum SW_Diff SW_Result = (S, D, P)"
    and "i < 16"
  shows "S ! i + D ! i = 2 * scast (A ! i)
       \<and> sint (S ! i) + sint (D ! i) = 2 * sint (A ! i)
       \<and> sint (S ! i + D ! i) = 2 * sint (A ! i)"
proof -
  have S: "S ! i = add_elem A B i"
    using software_sum_nth [OF assms(3,7), of A B SW_Diff SW_Result] assms(6) by simp
  have D: "D ! i = sub_elem A B i"
    using software_diff_nth [OF assms(4,7), of A B SW_Sum SW_Result] assms(6) by simp
  have w: "S ! i + D ! i = 2 * scast (A ! i)"
    by (simp add: S D add_elem_def sub_elem_def)
  have e: "sint (S ! i) + sint (D ! i) = 2 * sint (A ! i)"
    by (simp add: S D sint_add_elem sint_sub_elem)
  have "in_int32 (sint (S ! i) + sint (D ! i))"
    using sint16_bounds [of "A ! i"] by (simp add: e in_int32_def)
  then have "sint (S ! i + D ! i) = sint (S ! i) + sint (D ! i)"
    by (rule sint_add32)
  with w e show ?thesis by simp
qed

text \<open>Index 5 of \<open>1 .. 16\<close> and the identity: \<open>7 + 5 = 2 * 6\<close>.\<close>

theorem software_sum_plus_diff_witness:
  "sint (fst (software_matrix_operations example_A identity4 zero_buffer zero_buffer zero_buffer) ! 5)
   + sint (fst (snd (software_matrix_operations example_A identity4 zero_buffer zero_buffer zero_buffer)) ! 5) = 12"
proof -
  let ?r = "software_matrix_operations example_A identity4 zero_buffer zero_buffer zero_buffer"
  have len: "length zero_buffer = 16" by (simp add: zero_buffer_def)
  have run: "?r = (fst ?r, fst (snd ?r), snd (snd ?r))" by simp
  have five: "(5::nat) < 16" by simp
  from software_sum_plus_diff [OF safe_example_A safe_identity4 len len len run five]
  have "sint (fst ?r ! 5) + sint (fst (snd ?r) ! 5) = 2 * sint (example_A ! 5)"
    by blast
  then show ?thesis by (simp add: example_A_def)
qed

subsection \<open>The accelerator driver\<close>

text \<open>
  C6. The register accesses of \<open>hardware_matrix_operations\<close> are strictly ordered. A run
  that returns has added to the log exactly: the 16 writes of operand A, the 16 writes of
  operand B, the write of 1 to control, \<open>n + 1\<close> status reads of which the first \<open>n\<close>
  return bit 0 clear and the last returns bit 0 set, then the 16 sum reads, the 16
  difference reads and the 16 product reads. A run that does not return has, after any
  number \<open>n\<close> of status reads, logged the same writes and \<open>n\<close> status reads, no result
  read, and is still polling.
\<close>

theorem driver_access_order:
  assumes "length HW_Sum = 16" and "length HW_Diff = 16" and "length HW_Prod = 16"
  shows "(\<forall>S D P s'.
           hardware_matrix_operations M A B HW_Sum HW_Diff HW_Prod s = Some ((S, D, P), s') \<longrightarrow>
           (\<exists>n. snd s' = snd s
              @ operand_writes A_OFFSET A @ operand_writes B_OFFSET B
              @ [Write CONTROL_OFFSET 1]
              @ status_log M (Suc n) (start_accelerator M A B s)
              @ result_reads SUM_OFFSET S @ result_reads DIFF_OFFSET D @ result_reads PROD_OFFSET P
            \<and> (\<forall>m<n. nth_status M m (start_accelerator M A B s) AND 1 = 0)
            \<and> nth_status M n (start_accelerator M A B s) AND 1 = 1))
       \<and> (hardware_matrix_operations M A B HW_Sum HW_Diff HW_Prod s = None \<longrightarrow>
           (\<forall>n. snd (status_reads M n (start_accelerator M A B s)) = snd s
              @ operand_writes A_OFFSET A @ operand_writes B_OFFSET B
              @ [Write CONTROL_OFFSET 1]
              @ status_log M n (start_accelerator M A B s)
            \<and> poll_status M (status_reads M n (start_accelerator M A B s)) = None))"
  using driver_returning_log [OF assms, of M A B s] driver_blocked_log [of M A B HW_Sum HW_Diff HW_Prod s]
  by blast

text \<open>On the device whose status flag is always set: one status read, then the results.\<close>

theorem driver_access_order_witness:
  "\<exists>S D P s'.
     hardware_matrix_operations ready_device example_A identity4 zero_buffer zero_buffer zero_buffer ((), [])
       = Some ((S, D, P), s')
     \<and> snd s' = operand_writes A_OFFSET example_A @ operand_writes B_OFFSET identity4
           @ [Write CONTROL_OFFSET 1]
           @ [Read STATUS_OFFSET 1]
           @ result_reads SUM_OFFSET S @ result_reads DIFF_OFFSET D @ result_reads PROD_OFFSET P"
proof -
  let ?s = "((), []) :: unit \<times> access list"
  let ?s3 = "start_accelerator ready_device example_A identity4 ?s"
  obtain S D P s' where run:
    "hardware_matrix_operations ready_device example_A identity4 zero_buffer zero_buffer zero_buffer ?s
       = Some ((S, D, P), s')"
    using hardware_ready [of example_A identity4 zero_buffer zero_buffer zero_buffer ?s]
    by (metis prod.exhaust)
  have len: "length zero_buffer = 16" by (simp add: zero_buffer_def)
  from driver_access_order [OF len len len, of ready_device example_A identity4 ?s] run obtain n where
    log: "snd s' = snd ?s
           @ operand_writes A_OFFSET example_A @ operand_writes B_OFFSET identity4
           @ [Write CONTROL_OFFSET 1]
           @ status_log ready_device (Suc n) ?s3
           @ result_reads SUM_OFFSET S @ result_reads DIFF_OFFSET D @ result_reads PROD_OFFSET P"
    and before: "\<forall>m<n. nth_status ready_device m ?s3 AND 1 = 0"
    by blast
  have "n = 0"
  proof (rule ccontr)
    assume "n \<noteq> 0"
    then have "nth_status ready_device 0 ?s3 AND 1 = 0" using before by simp
    then show False by (simp add: nth_status_ready)
  qed
  then have "status_log ready_device (Suc n) ?s3 = [Read STATUS_OFFSET 1]"
    by (simp add: status_log_def nth_status_ready)
  with log run show ?thesis by auto
qed

text \<open>
  C8. The poll is a blocking, unbounded wait. The driver returns if and only if some
  read of the status register returns bit 0 set; it never returns if and only if every
  status read returns bit 0 clear; and after any number of reads with bit 0 clear it is
  exactly where it started: polling, with no count kept.
\<close>

theorem driver_poll_unbounded:
  "((\<exists>r. hardware_matrix_operations M A B HW_Sum HW_Diff HW_Prod s = Some r) \<longleftrightarrow>
      (\<exists>n. nth_status M n (start_accelerator M A B s) AND 1 = 1))
   \<and> (hardware_matrix_operations M A B HW_Sum HW_Diff HW_Prod s = None \<longleftrightarrow>
      (\<forall>n. nth_status M n (start_accelerator M A B s) AND 1 = 0))
   \<and> (\<forall>n. (\<forall>m<n. nth_status M m (start_accelerator M A B s) AND 1 = 0) \<longrightarrow>
        poll_status M (start_accelerator M A B s) =
        poll_status M (status_reads M n (start_accelerator M A B s)))"
proof -
  let ?s3 = "start_accelerator M A B s"
  let ?hw = "hardware_matrix_operations M A B HW_Sum HW_Diff HW_Prod s"
  have none: "?hw = None \<longleftrightarrow> (\<forall>n. nth_status M n ?s3 AND 1 = 0)"
    by (simp only: hardware_None_iff poll_status_None_iff)
  have "(\<exists>r. ?hw = Some r) \<longleftrightarrow> ?hw \<noteq> None"
    by simp
  also have "\<dots> \<longleftrightarrow> poll_status M ?s3 \<noteq> None"
    by (simp only: hardware_None_iff)
  also have "\<dots> \<longleftrightarrow> (\<exists>s4. poll_status M ?s3 = Some s4)"
    by (cases "poll_status M ?s3") simp_all
  also have "\<dots> \<longleftrightarrow> (\<exists>n. nth_status M n ?s3 AND 1 = 1)"
    by (rule poll_status_Some_iff)
  finally have some: "(\<exists>r. ?hw = Some r) \<longleftrightarrow> (\<exists>n. nth_status M n ?s3 AND 1 = 1)" .
  have skip: "\<forall>n. (\<forall>m<n. nth_status M m ?s3 AND 1 = 0) \<longrightarrow>
        poll_status M ?s3 = poll_status M (status_reads M n ?s3)"
    using poll_status_skip by blast
  from some none skip show ?thesis by (simp only: simp_thms)
qed

text \<open>The driver never returns on the device whose flag stays clear, and returns on the
  device whose flag is set.\<close>

theorem driver_poll_unbounded_witness:
  "hardware_matrix_operations dead_device example_A identity4 zero_buffer zero_buffer zero_buffer ((), []) = None
   \<and> (\<exists>r. hardware_matrix_operations ready_device example_A identity4 zero_buffer zero_buffer zero_buffer ((), []) = Some r)"
proof -
  have "hardware_matrix_operations dead_device example_A identity4 zero_buffer zero_buffer zero_buffer ((), []) = None"
    using driver_poll_unbounded [of dead_device example_A identity4 zero_buffer zero_buffer zero_buffer "((), [])"]
    by (simp add: nth_status_dead)
  moreover have "\<exists>r. hardware_matrix_operations ready_device example_A identity4 zero_buffer zero_buffer zero_buffer ((), []) = Some r"
    using driver_poll_unbounded [of ready_device example_A identity4 zero_buffer zero_buffer zero_buffer "((), [])"]
    by (simp add: nth_status_ready)
  ultimately show ?thesis by simp
qed

text \<open>
  C10. For every index \<open>i < 16\<close>, the word written to operand register \<open>A_OFFSET + i\<close>
  (the access number \<open>i\<close> of the run) is the sign extension of \<open>A[i]\<close>, and the word
  written to \<open>B_OFFSET + i\<close> (access number \<open>16 + i\<close>) the sign extension of \<open>B[i]\<close>:
  the signed value of the word is that of the operand, its low 16 bits are the operand,
  and a peripheral that reads the low 16 bits as a signed value gets the operand's.
\<close>

theorem operand_words_sign_extended:
  assumes "i < 16"
  shows "snd (start_accelerator M A B s) ! (length (snd s) + i) = Write (A_OFFSET + i) (scast (A ! i))
       \<and> snd (start_accelerator M A B s) ! (length (snd s) + 16 + i) = Write (B_OFFSET + i) (scast (B ! i))
       \<and> sint (scast (A ! i) :: u32) = sint (A ! i) \<and> sint (scast (B ! i) :: u32) = sint (B ! i)
       \<and> ucast (scast (A ! i) :: u32) = A ! i \<and> ucast (scast (B ! i) :: u32) = B ! i
       \<and> low16 (scast (A ! i)) = sint (A ! i) \<and> low16 (scast (B ! i)) = sint (B ! i)"
proof -
  have a: "snd (start_accelerator M A B s) ! (length (snd s) + i) = Write (A_OFFSET + i) (scast (A ! i))"
    using assms
    by (simp add: log_start_accelerator nth_append length_operand_writes nth_operand_writes)
  have b: "snd (start_accelerator M A B s) ! (length (snd s) + 16 + i) = Write (B_OFFSET + i) (scast (B ! i))"
    using assms
    by (simp add: log_start_accelerator nth_append length_operand_writes nth_operand_writes)
  from a b show ?thesis
    by (simp only: sint_scast16 ucast_scast16 low16_scast simp_thms)
qed

text \<open>The operand \<open>-3\<close> goes out as \<open>0xFFFFFFFD\<close>.\<close>

theorem operand_words_sign_extended_witness:
  "snd (start_accelerator ready_device negative_A identity4 ((), [])) ! (0 + 2) = Write (A_OFFSET + 2) 0xFFFFFFFD
   \<and> sint (scast (negative_A ! 2) :: u32) = - 3"
proof -
  have two: "(2::nat) < 16" by simp
  from operand_words_sign_extended [OF two, of ready_device negative_A identity4 "((), [])"]
  have "snd (start_accelerator ready_device negative_A identity4 ((), [])) ! (length (snd (((), []) :: unit \<times> access list)) + 2)
      = Write (A_OFFSET + 2) (scast (negative_A ! 2))"
    and "sint (scast (negative_A ! 2) :: u32) = sint (negative_A ! 2)"
    by blast+
  then show ?thesis by (simp add: negative_A_def)
qed

subsection \<open>The driver and the software engine\<close>

text \<open>
  C9. On the peripheral of the register map, which serves its result words only once
  status bit 0 is set, from any state of it (any latency, any earlier contents) and for
  operands in the safe range, the driver returns, and the three result arrays it returns
  are the three arrays the software engine produces. The agreement goes through the
  handshake: when the latency is not zero, the first status read after the start returns
  bit 0 clear, and every result word read at that moment is \<open>busy_word\<close>, not the
  result.
\<close>

theorem hardware_agrees_with_software:
  assumes "safe_matrix A" and "safe_matrix B"
    and "length SW_Sum = 16" and "length SW_Diff = 16" and "length SW_Result = 16"
    and "length HW_Sum = 16" and "length HW_Diff = 16" and "length HW_Prod = 16"
    and "accel_ok st"
  shows "(\<exists>s'. hardware_matrix_operations accelerator A B HW_Sum HW_Diff HW_Prod (st, lg) =
            Some (software_matrix_operations A B SW_Sum SW_Diff SW_Result, s'))
       \<and> (latency st \<noteq> 0 \<longrightarrow>
            nth_status accelerator 0 (start_accelerator accelerator A B (st, lg)) AND 1 = 0
          \<and> (\<forall>a. 32 \<le> a \<and> a < 80 \<longrightarrow>
                fst (accel_read (fst (start_accelerator accelerator A B (st, lg))) a) = busy_word st))"
proof -
  have "\<exists>s'. hardware_matrix_operations accelerator A B HW_Sum HW_Diff HW_Prod (st, lg) =
            Some (software_matrix_operations A B SW_Sum SW_Diff SW_Result, s')"
    using accel_run [OF assms(9,6,7,8), of A B lg]
    by (simp only: software_as_maps [OF assms(3,4,5)])
  then show ?thesis
    using accel_busy_after_start [OF assms(9), where A = A and B = B and lg = lg] by blast
qed

text \<open>The end-to-end scenario on a peripheral that needs three polls: the driver returns
  the software results, and the first sum word read right after the start would have
  been \<open>0xDEADBEEF\<close>.\<close>

theorem hardware_agrees_with_software_witness:
  "(\<exists>s'. hardware_matrix_operations accelerator example_A identity4 zero_buffer zero_buffer zero_buffer
       (accel_reset 3, []) =
     Some (software_matrix_operations example_A identity4 zero_buffer zero_buffer zero_buffer, s'))
   \<and> fst (accel_read (fst (start_accelerator accelerator example_A identity4 (accel_reset 3, []))) 32)
       = 0xDEADBEEF"
proof -
  have len: "length zero_buffer = 16" by (simp add: zero_buffer_def)
  have lat: "latency (accel_reset 3) \<noteq> 0" by (simp add: accel_reset_def)
  have junk: "busy_word (accel_reset 3) = 0xDEADBEEF" by (simp add: accel_reset_def)
  from hardware_agrees_with_software
        [OF safe_example_A safe_identity4 len len len len len len accel_reset_ok [of 3],
          where lg = "[]"] lat
  have "\<exists>s'. hardware_matrix_operations accelerator example_A identity4 zero_buffer zero_buffer zero_buffer
       (accel_reset 3, []) =
     Some (software_matrix_operations example_A identity4 zero_buffer zero_buffer zero_buffer, s')"
    and "fst (accel_read (fst (start_accelerator accelerator example_A identity4 (accel_reset 3, []))) 32)
       = busy_word (accel_reset 3)"
    by simp_all
  then show ?thesis by (simp only: junk simp_thms)
qed

subsection \<open>The cycle timer and the benchmark\<close>

text \<open>
  C7. The readback writes \<open>0x8\<close> (bit 3, stop) to the control register at offset 1,
  then 1 to the snapshot register at offset 4, then reads the count halves at offsets 5
  and 4, in either order of evaluation. The count is \<open>(hi << 16) | lo\<close> of the two words
  read, which for 16-bit halves is \<open>65536 * hi + lo\<close>, and the result is
  \<open>0xFFFFFFFF\<close> minus the count, with no wrap-around.
\<close>

theorem timer_readback:
  assumes "timer_stop_and_read T hi_first s = (cycles, s')"
  shows "\<exists>hi lo.
           snd s' = snd s @ [Write 1 8, Write 4 1]
                      @ (if hi_first then [Read 5 hi, Read 4 lo] else [Read 4 lo, Read 5 hi])
         \<and> bit (8 :: u32) 3
         \<and> cycles = 0xFFFFFFFF - (push_bit 16 hi OR lo)
         \<and> unat cycles = 4294967295 - unat (push_bit 16 hi OR lo)
         \<and> (hi < 2 ^ 16 \<and> lo < 2 ^ 16 \<longrightarrow>
              unat (push_bit 16 hi OR lo) = 65536 * unat hi + unat lo)"
proof (cases hi_first)
  case True
  let ?s2 = "mmio_write T 4 1 (mmio_write T 1 8 s)"
  let ?hi = "fst (mmio_read T 5 ?s2)"
  let ?s3 = "snd (mmio_read T 5 ?s2)"
  let ?lo = "fst (mmio_read T 4 ?s3)"
  have c: "cycles = 0xFFFFFFFF - (push_bit 16 ?hi OR ?lo)" and s': "s' = snd (mmio_read T 4 ?s3)"
    using assms True by (simp_all add: stop_hi_first)
  have log: "snd s' = snd s @ [Write 1 8, Write 4 1]
                      @ (if hi_first then [Read 5 ?hi, Read 4 ?lo] else [Read 4 ?lo, Read 5 ?hi])"
    unfolding s' by (simp add: True log_mmio_read log_mmio_write)
  from log timer_readback_values [OF c] show ?thesis by blast
next
  case False
  let ?s2 = "mmio_write T 4 1 (mmio_write T 1 8 s)"
  let ?lo = "fst (mmio_read T 4 ?s2)"
  let ?s3 = "snd (mmio_read T 4 ?s2)"
  let ?hi = "fst (mmio_read T 5 ?s3)"
  have c: "cycles = 0xFFFFFFFF - (push_bit 16 ?hi OR ?lo)" and s': "s' = snd (mmio_read T 5 ?s3)"
    using assms False by (simp_all add: stop_lo_first)
  have log: "snd s' = snd s @ [Write 1 8, Write 4 1]
                      @ (if hi_first then [Read 5 ?hi, Read 4 ?lo] else [Read 4 ?lo, Read 5 ?hi])"
    unfolding s' by (simp add: False log_mmio_read log_mmio_write)
  from log timer_readback_values [OF c] show ?thesis by blast
qed

text \<open>The readback of the timer whose halves read \<open>0xFFFF\<close>.\<close>

theorem timer_readback_witness:
  "\<exists>hi lo. snd (snd (timer_stop_and_read reloaded_timer True ((), [])))
       = [Write 1 8, Write 4 1, Read 5 hi, Read 4 lo]
     \<and> fst (timer_stop_and_read reloaded_timer True ((), [])) = 0xFFFFFFFF - (push_bit 16 hi OR lo)"
proof -
  have run: "timer_stop_and_read reloaded_timer True ((), []) =
      (fst (timer_stop_and_read reloaded_timer True ((), [])),
       snd (timer_stop_and_read reloaded_timer True ((), [])))"
    by simp
  from timer_readback [OF run] show ?thesis by auto
qed

text \<open>
  C1. The claim is that a hardware cycle count of zero never reaches the division. The
  code divides without a test: when both count halves read \<open>0xFFFF\<close> at the hardware
  readback, \<open>hw_cycles\<close> is 0 and \<open>sw_cycles / hw_cycles\<close> is the division by zero.
\<close>

theorem benchmark_divides_by_zero:
  "benchmark reloaded_timer accelerator True example_A identity4 zero_buffer ((), []) (accel_reset 0, [])
     = Some (Inl DivisionByZero)"
proof -
  have len: "length zero_buffer = 16" by (simp add: zero_buffer_def)
  obtain r where "hardware_matrix_operations accelerator example_A identity4
      zero_buffer zero_buffer zero_buffer (accel_reset 0, []) = Some r"
    using accel_run [OF accel_reset_ok len len len] by blast
  then show ?thesis
    by (rule benchmark_faults) (rule stop_reloaded_timer)
qed

end
